theory Spec2Isabelle
  imports Complex_Main "HOL-Library.AList"
begin

section \<open>Data model (emotion.types.ts)\<close>

text \<open>
  JavaScript numbers are modelled as \<open>real\<close> where they carry measurements
  (valence, arousal, confidence, progress) and as \<open>nat\<close> or \<open>int\<close> where the
  code only ever stores integers (counters, sizes, millisecond clocks). IEEE rounding,
  NaN and the infinities are not values of \<open>real\<close>; a computation of the source that
  would produce one of them is modelled as \<open>None\<close>.
\<close>

datatype merge_strategy = both_weighted | warriner_only | nrc_only | unknown

text \<open>IRawEmotionData: optional fields are \<open>option\<close>s (absent, undefined or null).\<close>

record raw_emotion =
  raw_term :: string
  raw_valence :: real
  raw_arousal :: real
  raw_dominance :: "real option"
  raw_confidence :: "real option"
  merge_strategy :: "string option"
  source_warriner :: "bool option"
  source_nrc :: "bool option"
  is_multiword :: "bool option"

text \<open>IEmotionMetadata and IEmotionData.\<close>

record emotion_metadata =
  sourceWarriner :: "bool option"
  sourceNRC :: "bool option"
  rawData :: raw_emotion

record emotion =
  emo_term :: string
  emo_valence :: real
  emo_arousal :: real
  emo_dominance :: "real option"
  emo_confidence :: real
  mergeStrategy :: merge_strategy
  isMultiword :: bool
  metadata :: "emotion_metadata option"

text \<open>IRenderablePoint.\<close>

record renderable_point =
  pt_term :: string
  pt_x :: real
  pt_y :: real
  pt_valence :: real
  pt_arousal :: real
  pt_confidence :: real
  pt_mergeStrategy :: merge_strategy
  pt_isMultiword :: bool
  pt_color :: string
  pt_size :: nat

section \<open>The background worker (dataWorker.js)\<close>

text \<open>getConfidenceColor of the worker, with the colours written in the worker file.\<close>

definition worker_getConfidenceColor :: "real \<Rightarrow> string" where
  "worker_getConfidenceColor confidence =
     (if confidence \<ge> 0.8 then ''#10b981''
      else if confidence \<ge> 0.7 then ''#f59e0b''
      else ''#ef4444'')"

text \<open>POINT_SIZE of the worker file.\<close>

definition worker_POINT_SIZE_DEFAULT :: nat where
  "worker_POINT_SIZE_DEFAULT = 2"

definition worker_POINT_SIZE_MULTIWORD :: nat where
  "worker_POINT_SIZE_MULTIWORD = 3"

text \<open>
  transformEmotionData: \<open>emotions.map\<close> of the point construction. The canvas width
  and height are parameters of the source function that its body never reads.
\<close>

definition transformEmotionData :: "emotion list \<Rightarrow> real \<Rightarrow> real \<Rightarrow> renderable_point list" where
  "transformEmotionData emotions canvasWidth canvasHeight =
     map (\<lambda>e.
       \<lparr> pt_term = emo_term e,
         pt_x = emo_valence e,
         pt_y = emo_arousal e,
         pt_valence = emo_valence e,
         pt_arousal = emo_arousal e,
         pt_confidence = emo_confidence e,
         pt_mergeStrategy = mergeStrategy e,
         pt_isMultiword = isMultiword e,
         pt_color = worker_getConfidenceColor (emo_confidence e),
         pt_size = (if isMultiword e then worker_POINT_SIZE_MULTIWORD
                    else worker_POINT_SIZE_DEFAULT) \<rparr>) emotions"

text \<open>
  Math.min and Math.max over a spread array. Over an empty array the source yields
  Infinity and -Infinity, which are not reals: \<open>None\<close>.
\<close>

fun Math_min :: "real list \<Rightarrow> real option" where
  "Math_min [] = None"
| "Math_min (v # vs) = Some (fold min vs v)"

fun Math_max :: "real list \<Rightarrow> real option" where
  "Math_max [] = None"
| "Math_max (v # vs) = Some (fold max vs v)"

text \<open>
  \<open>values.reduce((sum, val) => sum + val, 0) / values.length\<close>: over an empty array
  the source divides 0 by 0 and yields NaN: \<open>None\<close>.
\<close>

definition average :: "real list \<Rightarrow> real option" where
  "average vs =
     (if length vs = 0 then None
      else Some (fold (\<lambda>val sum. sum + val) vs 0 / real (length vs)))"

record range =
  range_min :: real
  range_max :: real

record statistics =
  totalCount :: nat
  valenceRange :: range
  arousalRange :: range
  confidenceRange :: range
  averageConfidence :: real

definition mk_range :: "real list \<Rightarrow> range option" where
  "mk_range vs =
     (case Math_min vs of
        None \<Rightarrow> None
      | Some lo \<Rightarrow>
          (case Math_max vs of
             None \<Rightarrow> None
           | Some hi \<Rightarrow> Some \<lparr> range_min = lo, range_max = hi \<rparr>))"

text \<open>
  calculateStatistics of the worker. The result is \<open>None\<close> exactly when one of the
  min, max or average computations would be evaluated on an empty array.
\<close>

definition calculateStatistics :: "emotion list \<Rightarrow> statistics option" where
  "calculateStatistics emotions =
     (if length emotions = 0 then
        Some \<lparr> totalCount = 0,
               valenceRange = \<lparr> range_min = 0, range_max = 0 \<rparr>,
               arousalRange = \<lparr> range_min = 0, range_max = 0 \<rparr>,
               confidenceRange = \<lparr> range_min = 0, range_max = 0 \<rparr>,
               averageConfidence = 0 \<rparr>
      else
        (let valenceValues = map emo_valence emotions;
             arousalValues = map emo_arousal emotions;
             confidenceValues = map emo_confidence emotions
         in case mk_range valenceValues of
              None \<Rightarrow> None
            | Some vr \<Rightarrow>
                (case mk_range arousalValues of
                   None \<Rightarrow> None
                 | Some ar \<Rightarrow>
                     (case mk_range confidenceValues of
                        None \<Rightarrow> None
                      | Some cr \<Rightarrow>
                          (case average confidenceValues of
                             None \<Rightarrow> None
                           | Some avg \<Rightarrow>
                               Some \<lparr> totalCount = length emotions,
                                      valenceRange = vr,
                                      arousalRange = ar,
                                      confidenceRange = cr,
                                      averageConfidence = avg \<rparr>)))))"

section \<open>The synchronous transformer (EmotionDataTransformer.ts)\<close>

text \<open>CONFIDENCE_COLORS, CONFIDENCE_THRESHOLDS and getConfidenceColor of colors.const.ts.\<close>

definition CONFIDENCE_COLORS_HIGH :: string where
  "CONFIDENCE_COLORS_HIGH = ''#7CB342''"

definition CONFIDENCE_COLORS_MEDIUM :: string where
  "CONFIDENCE_COLORS_MEDIUM = ''#FF8A65''"

definition CONFIDENCE_COLORS_LOW :: string where
  "CONFIDENCE_COLORS_LOW = ''#E57373''"

definition CONFIDENCE_THRESHOLDS_HIGH :: real where
  "CONFIDENCE_THRESHOLDS_HIGH = 0.8"

definition CONFIDENCE_THRESHOLDS_MEDIUM :: real where
  "CONFIDENCE_THRESHOLDS_MEDIUM = 0.7"

definition getConfidenceColor :: "real \<Rightarrow> string" where
  "getConfidenceColor confidence =
     (if confidence \<ge> CONFIDENCE_THRESHOLDS_HIGH then CONFIDENCE_COLORS_HIGH
      else if confidence \<ge> CONFIDENCE_THRESHOLDS_MEDIUM then CONFIDENCE_COLORS_MEDIUM
      else CONFIDENCE_COLORS_LOW)"

text \<open>POINT_SIZE of visualization.const.ts.\<close>

definition POINT_SIZE_DEFAULT :: nat where
  "POINT_SIZE_DEFAULT = 3"

definition POINT_SIZE_MULTIWORD :: nat where
  "POINT_SIZE_MULTIWORD = 4"

definition transformSingleEmotion :: "emotion \<Rightarrow> real \<Rightarrow> real \<Rightarrow> renderable_point" where
  "transformSingleEmotion e canvasWidth canvasHeight =
     \<lparr> pt_term = emo_term e,
       pt_x = emo_valence e,
       pt_y = emo_arousal e,
       pt_valence = emo_valence e,
       pt_arousal = emo_arousal e,
       pt_confidence = emo_confidence e,
       pt_mergeStrategy = mergeStrategy e,
       pt_isMultiword = isMultiword e,
       pt_color = getConfidenceColor (emo_confidence e),
       pt_size = (if isMultiword e then POINT_SIZE_MULTIWORD else POINT_SIZE_DEFAULT) \<rparr>"

definition transformToRenderable :: "emotion list \<Rightarrow> real \<Rightarrow> real \<Rightarrow> renderable_point list" where
  "transformToRenderable emotions canvasWidth canvasHeight =
     map (\<lambda>e. transformSingleEmotion e canvasWidth canvasHeight) emotions"

section \<open>The chunk loader (ChunkedDataLoader.ts)\<close>

text \<open>normalizeMergeStrategy of the loader: a switch on the exact strings.\<close>

definition normalizeMergeStrategy :: "string option \<Rightarrow> merge_strategy" where
  "normalizeMergeStrategy strategy =
     (if strategy = Some ''both_weighted'' then both_weighted
      else if strategy = Some ''warriner_only'' then warriner_only
      else if strategy = Some ''nrc_only'' then nrc_only
      else unknown)"

text \<open>normalizeEmotionData: the per-record normalizer of the loader.\<close>

definition normalizeEmotionData :: "raw_emotion \<Rightarrow> emotion" where
  "normalizeEmotionData raw =
     \<lparr> emo_term = raw_term raw,
       emo_valence = raw_valence raw,
       emo_arousal = raw_arousal raw,
       emo_dominance = raw_dominance raw,
       emo_confidence = (case raw_confidence raw of None \<Rightarrow> 0.5 | Some c \<Rightarrow> c),
       mergeStrategy = normalizeMergeStrategy (merge_strategy raw),
       isMultiword = (case is_multiword raw of None \<Rightarrow> False | Some b \<Rightarrow> b),
       metadata = Some \<lparr> sourceWarriner = source_warriner raw,
                         sourceNRC = source_nrc raw,
                         rawData = raw \<rparr> \<rparr>"

text \<open>
  What a fetch gives back: \<open>None\<close> when the fetch promise rejects, otherwise a response
  with its \<open>ok\<close> flag and the result of decoding its body (\<open>None\<close> when response.json()
  rejects).
\<close>

record 'a response =
  ok :: bool
  json :: "'a option"

datatype load_error =
    FetchRejected
  | JsonRejected
  | FailedToFetchMetadata
  | FailedToLoadChunk nat

record api_metadata =
  md_totalCount :: nat
  md_chunkSize :: nat
  md_totalChunks :: nat

definition MAX_CONCURRENT_REQUESTS :: nat where
  "MAX_CONCURRENT_REQUESTS = 8"

text \<open>
  getMetadata: the memoized metadata (the loader's field) is returned when present;
  otherwise the endpoint is fetched and the result stored. Returns the outcome and the
  field afterwards.
\<close>

definition getMetadata ::
  "api_metadata option \<Rightarrow> api_metadata response option
     \<Rightarrow> (load_error + api_metadata) \<times> api_metadata option" where
  "getMetadata memo fetched =
     (case memo of
        Some md \<Rightarrow> (Inr md, memo)
      | None \<Rightarrow>
          (case fetched of
             None \<Rightarrow> (Inl FetchRejected, memo)
           | Some resp \<Rightarrow>
               (if \<not> ok resp then (Inl FailedToFetchMetadata, memo)
                else (case json resp of
                        None \<Rightarrow> (Inl JsonRejected, memo)
                      | Some md \<Rightarrow> (Inr md, Some md)))))"

text \<open>loadChunk, over the environment's answer \<open>fetch chunkId\<close> to the chunk request.\<close>

definition loadChunk ::
  "(nat \<Rightarrow> raw_emotion list response option) \<Rightarrow> nat \<Rightarrow> load_error + emotion list" where
  "loadChunk fetch chunkId =
     (case fetch chunkId of
        None \<Rightarrow> Inl FetchRejected
      | Some resp \<Rightarrow>
          (if \<not> ok resp then Inl (FailedToLoadChunk chunkId)
           else (case json resp of
                   None \<Rightarrow> Inl JsonRejected
                 | Some raws \<Rightarrow> Inr (map normalizeEmotionData raws))))"

text \<open>
  The inner loop of loadDataProgressively:
  \<open>for (j = 0; j < MAX_CONCURRENT_REQUESTS && i + j < totalChunks; j++)\<close>, collecting
  the chunk ids whose loadChunk promise is pushed.
\<close>

function batch_loop :: "nat \<Rightarrow> nat \<Rightarrow> nat \<Rightarrow> nat list \<Rightarrow> nat list" where
  "batch_loop i j totalChunks chunkIds =
     (if j < MAX_CONCURRENT_REQUESTS \<and> i + j < totalChunks
      then batch_loop i (j + 1) totalChunks (chunkIds @ [i + j])
      else chunkIds)"
  by pat_completeness auto
termination
  by (relation "measure (\<lambda>(i, j, totalChunks, chunkIds). MAX_CONCURRENT_REQUESTS - j)") auto

declare batch_loop.simps [simp del]

text \<open>
  Promise.all over the settled members of a batch: the values in order when every member
  is fulfilled; otherwise a rejection. The source rejects with the reason of whichever
  member rejects first in time; the model keeps the reasons of all rejected members.
\<close>

fun Promise_all :: "(load_error + 'a) list \<Rightarrow> load_error list + 'a list" where
  "Promise_all [] = Inr []"
| "Promise_all (Inl e # ps) =
     (case Promise_all ps of Inl es \<Rightarrow> Inl (e # es) | Inr _ \<Rightarrow> Inl [e])"
| "Promise_all (Inr v # ps) =
     (case Promise_all ps of Inl es \<Rightarrow> Inl es | Inr vs \<Rightarrow> Inr (v # vs))"

text \<open>
  \<open>chunks.forEach\<close>: for each chunk, increment loadedChunks, compute the progress and
  call onProgress. The calls of onProgress are appended to a log (a callback that throws
  is not modelled).
\<close>

fun forEach_chunk ::
  "emotion list list \<Rightarrow> nat \<Rightarrow> nat \<Rightarrow> (real \<times> emotion list) list
     \<Rightarrow> nat \<times> (real \<times> emotion list) list" where
  "forEach_chunk [] totalChunks loadedChunks calls = (loadedChunks, calls)"
| "forEach_chunk (chunk # chunks) totalChunks loadedChunks calls =
     forEach_chunk chunks totalChunks (loadedChunks + 1)
       (calls @ [(real (loadedChunks + 1) / real totalChunks * 100, chunk)])"

text \<open>The outer loop \<open>for (i = 0; i < totalChunks; i += MAX_CONCURRENT_REQUESTS)\<close>.\<close>

function load_loop ::
  "(nat \<Rightarrow> load_error + emotion list) \<Rightarrow> nat \<Rightarrow> nat \<Rightarrow> nat \<Rightarrow> (real \<times> emotion list) list
     \<Rightarrow> (real \<times> emotion list) list \<times> (load_error list + unit)" where
  "load_loop load totalChunks i loadedChunks calls =
     (if i < totalChunks then
        (case Promise_all (map load (batch_loop i 0 totalChunks [])) of
           Inl errs \<Rightarrow> (calls, Inl errs)
         | Inr chunks \<Rightarrow>
             (case forEach_chunk chunks totalChunks loadedChunks calls of
                (loadedChunks', calls') \<Rightarrow>
                  load_loop load totalChunks (i + MAX_CONCURRENT_REQUESTS) loadedChunks' calls'))
      else (calls, Inr ()))"
  by pat_completeness auto
termination
  by (relation "measure (\<lambda>(load, totalChunks, i, loadedChunks, calls). totalChunks - i)")
    (auto simp: MAX_CONCURRENT_REQUESTS_def)

declare load_loop.simps [simp del]

text \<open>
  loadDataProgressively: the log of onProgress calls, the outcome of the promise, and the
  loader's memoized metadata afterwards.
\<close>

definition loadDataProgressively ::
  "api_metadata option \<Rightarrow> api_metadata response option
     \<Rightarrow> (nat \<Rightarrow> raw_emotion list response option)
     \<Rightarrow> (real \<times> emotion list) list \<times> (load_error list + unit) \<times> api_metadata option" where
  "loadDataProgressively memo fetchedMetadata fetch =
     (case getMetadata memo fetchedMetadata of
        (Inl e, memo') \<Rightarrow> ([], Inl [e], memo')
      | (Inr md, memo') \<Rightarrow>
          (case load_loop (loadChunk fetch) (md_totalChunks md) 0 0 [] of
             (calls, outcome) \<Rightarrow> (calls, outcome, memo')))"

text \<open>loadData: the chunks passed to onProgress, concatenated.\<close>

definition loadData ::
  "api_metadata option \<Rightarrow> api_metadata response option
     \<Rightarrow> (nat \<Rightarrow> raw_emotion list response option)
     \<Rightarrow> (load_error list + emotion list) \<times> api_metadata option" where
  "loadData memo fetchedMetadata fetch =
     (case loadDataProgressively memo fetchedMetadata fetch of
        (calls, Inl errs, memo') \<Rightarrow> (Inl errs, memo')
      | (calls, Inr _, memo') \<Rightarrow> (Inr (concat (map snd calls)), memo'))"

subsection \<open>The loading call on the event loop\<close>

text \<open>
  The loading call as seen by the event loop. Between two turns the call is either about
  to run its loop test (\<open>Running\<close>), suspended in \<open>await Promise.all\<close>
  (\<open>AwaitingBatch\<close>), ended by a rejection (\<open>Rejected\<close>), or returned
  (\<open>Resolved\<close>). \<open>in_flight\<close> lists the chunk ids whose loadChunk promise has been
  created and has not settled.
\<close>

datatype load_phase = Running | AwaitingBatch | Rejected | Resolved

record load_state =
  loop_i :: nat
  in_flight :: "nat list"
  load_phase :: load_phase

text \<open>
  The events: the call runs on from its loop test (\<open>Continue\<close>), the loadChunk promise
  of a chunk is fulfilled, or it is rejected.
\<close>

datatype load_event = Continue | ChunkFulfilled nat | ChunkRejected nat

definition load_init :: load_state where
  "load_init = \<lparr> loop_i = 0, in_flight = [], load_phase = Running \<rparr>"

text \<open>
  One event. \<open>Continue\<close> runs the loop test and, when it holds, the inner loop, which
  creates the promises of the batch, and suspends in \<open>await Promise.all\<close>. The await
  resumes when the last member of the batch is fulfilled (the progress calls run, then
  \<open>i += MAX_CONCURRENT_REQUESTS\<close>); it throws as soon as one member is rejected, which
  ends the call while the other members stay in flight until they settle. An event that
  cannot happen in the state (a settlement of a chunk that is not in flight, a
  continuation of a suspended or ended call) leaves the state unchanged.
\<close>

fun load_step :: "nat \<Rightarrow> load_event \<Rightarrow> load_state \<Rightarrow> load_state" where
  "load_step totalChunks Continue s =
     (if load_phase s = Running then
        (if loop_i s < totalChunks
         then s\<lparr> in_flight := batch_loop (loop_i s) 0 totalChunks [],
                 load_phase := AwaitingBatch \<rparr>
         else s\<lparr> load_phase := Resolved \<rparr>)
      else s)"
| "load_step totalChunks (ChunkFulfilled c) s =
     (if c \<in> set (in_flight s) then
        (if load_phase s = AwaitingBatch \<and> remove1 c (in_flight s) = []
         then s\<lparr> in_flight := [], loop_i := loop_i s + MAX_CONCURRENT_REQUESTS,
                 load_phase := Running \<rparr>
         else s\<lparr> in_flight := remove1 c (in_flight s) \<rparr>)
      else s)"
| "load_step totalChunks (ChunkRejected c) s =
     (if c \<in> set (in_flight s) then
        s\<lparr> in_flight := remove1 c (in_flight s),
           load_phase := (if load_phase s = AwaitingBatch then Rejected else load_phase s) \<rparr>
      else s)"

fun load_run :: "nat \<Rightarrow> load_event list \<Rightarrow> load_state \<Rightarrow> load_state" where
  "load_run totalChunks [] s = s"
| "load_run totalChunks (e # es) s = load_run totalChunks es (load_step totalChunks e s)"

definition load_inv :: "load_state \<Rightarrow> bool" where
  "load_inv s = (length (in_flight s) \<le> MAX_CONCURRENT_REQUESTS
     \<and> (load_phase s = Running \<longrightarrow> in_flight s = []))"

section \<open>The data cache (DataCache.ts)\<close>

text \<open>
  ICacheEntry. The stored data is \<open>'v option\<close>, with \<open>None\<close> for JavaScript's
  null; \<open>timestamp\<close> is a reading of Date.now() in milliseconds and \<open>ttl\<close> is the
  time to live in milliseconds.
\<close>

record 'v cache_entry =
  data :: "'v option"
  timestamp :: int
  ttl :: real

text \<open>
  DataCache. The field \<open>cache\<close> is a JavaScript Map, which iterates in insertion
  order: an association list, where \<open>AList.update\<close> is Map.set (overwrite in place
  or append at the end), \<open>AList.delete\<close> is Map.delete and \<open>map_of\<close> is Map.get.
  The capacity \<open>maxSize\<close> is a count of entries.
\<close>

record 'v DataCache =
  cache :: "(string \<times> 'v cache_entry) list"
  hits :: nat
  misses :: nat
  maxSize :: nat

definition CACHE_TTL_MEDIUM :: real where
  "CACHE_TTL_MEDIUM = 300"

text \<open>The constructor.\<close>

definition DataCache_new :: "nat \<Rightarrow> 'v DataCache" where
  "DataCache_new n = \<lparr> cache = [], hits = 0, misses = 0, maxSize = n \<rparr>"

text \<open>The test \<open>now - entry.timestamp > entry.ttl\<close> shared by get, has and cleanup.\<close>

definition expired :: "int \<Rightarrow> 'v cache_entry \<Rightarrow> bool" where
  "expired now entry = (real_of_int (now - timestamp entry) > ttl entry)"

text \<open>
  set(key, data, ttl), with the reading of Date.now() as the argument \<open>now\<close>. The
  argument \<open>ttl_s\<close> is in seconds (CACHE_TTL_MEDIUM when the caller omits it).
\<close>

definition cache_set :: "string \<Rightarrow> 'v option \<Rightarrow> real \<Rightarrow> int \<Rightarrow> 'v DataCache \<Rightarrow> 'v DataCache" where
  "cache_set key d ttl_s now c =
     (let c1 = (if length (cache c) \<ge> maxSize c then
                  (case cache c of
                     [] \<Rightarrow> c
                   | (firstKey, _) # _ \<Rightarrow> c\<lparr> cache := AList.delete firstKey (cache c) \<rparr>)
                else c)
      in c1\<lparr> cache := AList.update key
                 \<lparr> data = d, timestamp = now, ttl = ttl_s * 1000 \<rparr> (cache c1) \<rparr>)"

text \<open>get(key): the returned value (\<open>None\<close> is null) and the cache afterwards.\<close>

definition cache_get :: "string \<Rightarrow> int \<Rightarrow> 'v DataCache \<Rightarrow> 'v option \<times> 'v DataCache" where
  "cache_get key now c =
     (case map_of (cache c) key of
        None \<Rightarrow> (None, c\<lparr> misses := misses c + 1 \<rparr>)
      | Some entry \<Rightarrow>
          (if expired now entry then
             (None, c\<lparr> cache := AList.delete key (cache c), misses := misses c + 1 \<rparr>)
           else (data entry, c\<lparr> hits := hits c + 1 \<rparr>)))"

definition cache_has :: "string \<Rightarrow> int \<Rightarrow> 'v DataCache \<Rightarrow> bool \<times> 'v DataCache" where
  "cache_has key now c =
     (case map_of (cache c) key of
        None \<Rightarrow> (False, c)
      | Some entry \<Rightarrow>
          (if expired now entry then
             (False, c\<lparr> cache := AList.delete key (cache c) \<rparr>)
           else (True, c)))"

definition cache_delete :: "string \<Rightarrow> 'v DataCache \<Rightarrow> bool \<times> 'v DataCache" where
  "cache_delete key c =
     (map_of (cache c) key \<noteq> None, c\<lparr> cache := AList.delete key (cache c) \<rparr>)"

text \<open>
  deleteByPattern: the loop over the keys, deleting each key the pattern matches and
  counting. \<open>regex.test\<close> is the predicate \<open>test\<close> (a pattern without the global
  or sticky flag, whose test does not depend on earlier tests).
\<close>

definition cache_deleteByPattern :: "(string \<Rightarrow> bool) \<Rightarrow> 'v DataCache \<Rightarrow> nat \<times> 'v DataCache" where
  "cache_deleteByPattern test c =
     (case fold (\<lambda>key (deleted, m).
                   if test key then (deleted + 1, AList.delete key m) else (deleted, m))
                (map fst (cache c)) (0, cache c) of
        (deleted, m) \<Rightarrow> (deleted, c\<lparr> cache := m \<rparr>))"

definition cache_clear :: "'v DataCache \<Rightarrow> 'v DataCache" where
  "cache_clear c = c\<lparr> cache := [], hits := 0, misses := 0 \<rparr>"

text \<open>cleanup: the loop over the entries, deleting each expired one and counting.\<close>

definition cache_cleanup :: "int \<Rightarrow> 'v DataCache \<Rightarrow> nat \<times> 'v DataCache" where
  "cache_cleanup now c =
     (case fold (\<lambda>(key, entry) (cleaned, m).
                   if expired now entry then (cleaned + 1, AList.delete key m)
                   else (cleaned, m))
                (cache c) (0, cache c) of
        (cleaned, m) \<Rightarrow> (cleaned, c\<lparr> cache := m \<rparr>))"

definition cache_size :: "'v DataCache \<Rightarrow> nat" where
  "cache_size c = length (cache c)"

definition cache_keys :: "'v DataCache \<Rightarrow> string list" where
  "cache_keys c = map fst (cache c)"

text \<open>
  getOrSetSync. The factory is a state transformer on the world outside the cache, so
  that calling it is observable; it returns \<open>Inl\<close> when it throws. Date.now() is read
  once inside get (\<open>now_get\<close>) and once inside set (\<open>now_set\<close>).
\<close>

definition getOrSetSync ::
  "string \<Rightarrow> ('w \<Rightarrow> (string + 'v option) \<times> 'w) \<Rightarrow> real \<Rightarrow> int \<Rightarrow> int
    \<Rightarrow> 'v DataCache \<times> 'w \<Rightarrow> (string + 'v option) \<times> 'v DataCache \<times> 'w" where
  "getOrSetSync key factory ttl_s now_get now_set cw =
     (case cw of (c, w) \<Rightarrow>
        (case cache_get key now_get c of
           (Some cached, c1) \<Rightarrow> (Inr (Some cached), c1, w)
         | (None, c1) \<Rightarrow>
             (case factory w of
                (Inl err, w1) \<Rightarrow> (Inl err, c1, w1)
              | (Inr d, w1) \<Rightarrow> (Inr d, cache_set key d ttl_s now_set c1, w1))))"

text \<open>
  getOrSet, the asynchronous variant, in its two turns of the event loop: up to
  \<open>await factory()\<close>, and after the factory's promise is fulfilled. Other cache
  operations may run between the two turns. A rejected factory promise ends the call
  without a second turn.
\<close>

datatype 'v getOrSet_turn = Return "'v" | AwaitFactory

definition getOrSet_start :: "string \<Rightarrow> int \<Rightarrow> 'v DataCache \<Rightarrow> 'v getOrSet_turn \<times> 'v DataCache" where
  "getOrSet_start key now c =
     (case cache_get key now c of
        (Some cached, c1) \<Rightarrow> (Return cached, c1)
      | (None, c1) \<Rightarrow> (AwaitFactory, c1))"

definition getOrSet_resume :: "string \<Rightarrow> 'v option \<Rightarrow> real \<Rightarrow> int \<Rightarrow> 'v DataCache \<Rightarrow> 'v option \<times> 'v DataCache" where
  "getOrSet_resume key d ttl_s now c = (d, cache_set key d ttl_s now c)"

text \<open>A sequence of calls on one cache, and the cache after running it.\<close>

datatype ('v, 'w) cache_op =
    Set string "'v option" real int
  | Get string int
  | Has string int
  | Delete string
  | DeleteByPattern "string \<Rightarrow> bool"
  | Clear
  | Cleanup int
  | GetOrSetSync string "'w \<Rightarrow> (string + 'v option) \<times> 'w" real int int
  | GetOrSetStart string int
  | GetOrSetResume string "'v option" real int

fun apply_op :: "('v, 'w) cache_op \<Rightarrow> 'v DataCache \<times> 'w \<Rightarrow> 'v DataCache \<times> 'w" where
  "apply_op (Set key d ttl_s now) (c, w) = (cache_set key d ttl_s now c, w)"
| "apply_op (Get key now) (c, w) = (snd (cache_get key now c), w)"
| "apply_op (Has key now) (c, w) = (snd (cache_has key now c), w)"
| "apply_op (Delete key) (c, w) = (snd (cache_delete key c), w)"
| "apply_op (DeleteByPattern test) (c, w) = (snd (cache_deleteByPattern test c), w)"
| "apply_op Clear (c, w) = (cache_clear c, w)"
| "apply_op (Cleanup now) (c, w) = (snd (cache_cleanup now c), w)"
| "apply_op (GetOrSetSync key factory ttl_s now_get now_set) (c, w) =
     snd (getOrSetSync key factory ttl_s now_get now_set (c, w))"
| "apply_op (GetOrSetStart key now) (c, w) = (snd (getOrSet_start key now c), w)"
| "apply_op (GetOrSetResume key d ttl_s now) (c, w) =
     (snd (getOrSet_resume key d ttl_s now c), w)"

fun run_ops :: "('v, 'w) cache_op list \<Rightarrow> 'v DataCache \<times> 'w \<Rightarrow> 'v DataCache \<times> 'w" where
  "run_ops [] cw = cw"
| "run_ops (op # ops) cw = run_ops ops (apply_op op cw)"

text \<open>A run of set calls, each given as (key, data, ttl, now).\<close>

fun set_all :: "(string \<times> 'v option \<times> real \<times> int) list \<Rightarrow> 'v DataCache \<Rightarrow> 'v DataCache" where
  "set_all [] c = c"
| "set_all ((key, d, ttl_s, now) # rest) c = set_all rest (cache_set key d ttl_s now c)"

text \<open>The invariant of the store: within capacity, and keys pairwise distinct.\<close>

definition cache_inv :: "nat \<Rightarrow> 'v DataCache \<Rightarrow> bool" where
  "cache_inv n c = (maxSize c = n \<and> length (cache c) \<le> n \<and> distinct (map fst (cache c)))"

text \<open>The onProgress calls for the chunks \<open>chunks\<close> with the chunk ids \<open>ids\<close>.\<close>

definition progress_calls :: "nat \<Rightarrow> nat list \<Rightarrow> emotion list list \<Rightarrow> (real \<times> emotion list) list" where
  "progress_calls totalChunks ids chunks =
     map (\<lambda>(k, chunk). (real (k + 1) / real totalChunks * 100, chunk)) (zip ids chunks)"

section \<open>The transform offload manager (webWorker.ts)\<close>

text \<open>
  The correlation id of a request is the string \<open>msg_n\<close> for the counter value
  \<open>n\<close>: \<open>MsgId n\<close>. An inbound message may carry any other id (or none):
  \<open>OtherId\<close>.
\<close>

datatype message_id = MsgId nat | OtherId string

text \<open>
  WorkerMessage as the manager receives it. \<open>msg_error\<close> is the \<open>message\<close> of the
  \<open>error\<close> field, \<open>None\<close> when the message has no \<open>error\<close> field.
\<close>

record 'r worker_message =
  msg_type :: string
  msg_id :: message_id
  msg_result :: 'r
  msg_error :: "string option"

text \<open>A call of the \<open>resolve\<close> or of the \<open>reject\<close> function of a request's promise.\<close>

datatype 'r settle = Resolve 'r | Reject string

text \<open>
  WebWorkerManager. \<open>worker\<close> tells whether the field holds a Worker;
  \<open>pendingMessages\<close> holds the keys of the map (the entry under a key is the pair of
  settling functions of the promise created with that id); \<open>settled\<close> logs every call
  of a settling function with the id of its promise; \<open>warnings\<close> logs the ids passed to
  console.warn by handleMessage.
\<close>

record 'r manager =
  worker :: bool
  messageId :: nat
  pendingMessages :: "message_id set"
  settled :: "(message_id \<times> 'r settle) list"
  warnings :: "message_id list"

definition manager_init :: "'r manager" where
  "manager_init = \<lparr> worker = False, messageId = 0, pendingMessages = {},
                     settled = [], warnings = [] \<rparr>"

text \<open>
  initialize, up to the assignment of the worker field: a no-op when a worker exists or
  when workers are not supported or cannot be constructed (\<open>available = False\<close>).
\<close>

definition initialize :: "bool \<Rightarrow> 'r manager \<Rightarrow> 'r manager" where
  "initialize available s =
     (if worker s then s
      else if \<not> available then s
      else s\<lparr> worker := True \<rparr>)"

definition handleMessage :: "'r worker_message \<Rightarrow> 'r manager \<Rightarrow> 'r manager" where
  "handleMessage m s =
     (if msg_type m = ''INITIALIZED'' then s
      else if msg_id m \<notin> pendingMessages s then
        s\<lparr> warnings := warnings s @ [msg_id m] \<rparr>
      else
        (let s1 = s\<lparr> pendingMessages := pendingMessages s - {msg_id m} \<rparr>
         in if msg_type m = ''SUCCESS'' then
              s1\<lparr> settled := settled s1 @ [(msg_id m, Resolve (msg_result m))] \<rparr>
            else if msg_type m = ''ERROR'' then
              (case msg_error m of
                 None \<Rightarrow> s1
               | Some text \<Rightarrow> s1\<lparr> settled := settled s1 @ [(msg_id m, Reject text)] \<rparr>)
            else s1))"

text \<open>
  sendMessage, up to the return of the promise: either the promise is rejected at once
  (no worker), or a fresh id is taken, the entry stored and the message posted; the
  result is the id of the pending promise.
\<close>

definition sendMessage :: "'r manager \<Rightarrow> (string + message_id) \<times> 'r manager" where
  "sendMessage s =
     (if \<not> worker s then (Inl ''Worker not initialized'', s)
      else (let n = messageId s + 1
            in (Inr (MsgId n),
                s\<lparr> messageId := n,
                   pendingMessages := insert (MsgId n) (pendingMessages s) \<rparr>)))"

text \<open>The callback that sendMessage passes to setTimeout for the request \<open>mid\<close>.\<close>

definition timeout_fires :: "message_id \<Rightarrow> 'r manager \<Rightarrow> 'r manager" where
  "timeout_fires mid s =
     (if mid \<in> pendingMessages s then
        s\<lparr> pendingMessages := pendingMessages s - {mid},
           settled := settled s @ [(mid, Reject ''Worker message timeout'')] \<rparr>
      else s)"

definition terminate :: "'r manager \<Rightarrow> 'r manager" where
  "terminate s =
     (if worker s then s\<lparr> worker := False, pendingMessages := {} \<rparr> else s)"

text \<open>The turns of the event loop that touch the manager, and a run of them.\<close>

datatype 'r manager_event =
    Initialize bool
  | SendMessage
  | OnMessage "'r worker_message"
  | TimeoutFires message_id
  | Terminate

fun manager_step :: "'r manager_event \<Rightarrow> 'r manager \<Rightarrow> 'r manager" where
  "manager_step (Initialize available) s = initialize available s"
| "manager_step SendMessage s = snd (sendMessage s)"
| "manager_step (OnMessage m) s = handleMessage m s"
| "manager_step (TimeoutFires mid) s = timeout_fires mid s"
| "manager_step Terminate s = terminate s"

fun manager_run :: "'r manager_event list \<Rightarrow> 'r manager \<Rightarrow> 'r manager" where
  "manager_run [] s = s"
| "manager_run (e # es) s = manager_run es (manager_step e s)"

text \<open>
  The invariant: no promise has been settled twice, no settled promise is pending, and
  every pending or settled id has been issued (it is at most the counter).
\<close>

definition issued :: "nat \<Rightarrow> message_id \<Rightarrow> bool" where
  "issued n mid = (case mid of MsgId k \<Rightarrow> k \<le> n | OtherId _ \<Rightarrow> False)"

definition manager_inv :: "'r manager \<Rightarrow> bool" where
  "manager_inv s =
     (distinct (map fst (settled s))
      \<and> fst ` set (settled s) \<inter> pendingMessages s = {}
      \<and> (\<forall>mid \<in> pendingMessages s \<union> fst ` set (settled s). issued (messageId s) mid))"

section \<open>Theorems\<close>

subsection \<open>Worker statistics\<close>

lemma mk_range_Cons: "\<exists>r. mk_range (v # vs) = Some r"
  by (simp add: mk_range_def)

lemma average_Cons: "\<exists>a. average (v # vs) = Some a"
  by (simp add: average_def)

text \<open>
  Claim C10. The worker's calculateStatistics applied to the empty record array returns
  the all-zero statistics object, and on every input it returns a statistics object:
  the min, max and average computations are never evaluated on an empty array, so no
  division by zero and no minimum or maximum of nothing occurs.
\<close>

theorem calculateStatistics_empty_and_total:
  "calculateStatistics [] =
     Some \<lparr> totalCount = 0,
            valenceRange = \<lparr> range_min = 0, range_max = 0 \<rparr>,
            arousalRange = \<lparr> range_min = 0, range_max = 0 \<rparr>,
            confidenceRange = \<lparr> range_min = 0, range_max = 0 \<rparr>,
            averageConfidence = 0 \<rparr>
   \<and> (\<exists>s. calculateStatistics emotions = Some s)"
proof (cases emotions)
  case Nil
  then show ?thesis by (simp add: calculateStatistics_def)
next
  case (Cons e es)
  obtain vr where vr: "mk_range (emo_valence e # map emo_valence es) = Some vr"
    using mk_range_Cons by blast
  obtain ar where ar: "mk_range (emo_arousal e # map emo_arousal es) = Some ar"
    using mk_range_Cons by blast
  obtain cr where cr: "mk_range (emo_confidence e # map emo_confidence es) = Some cr"
    using mk_range_Cons by blast
  obtain avg where avg: "average (emo_confidence e # map emo_confidence es) = Some avg"
    using average_Cons by blast
  from Cons vr ar cr avg show ?thesis
    by (simp add: calculateStatistics_def Let_def)
qed

subsection \<open>Background path against synchronous path\<close>

lemma transform_paths_same_length:
  "length (transformEmotionData emotions w h) = length (transformToRenderable emotions w h)"
  by (simp add: transformEmotionData_def transformToRenderable_def)

lemma transform_paths_agree_on_copied_fields:
  "map (\<lambda>p. (pt_term p, pt_x p, pt_y p, pt_valence p, pt_arousal p, pt_confidence p,
              pt_mergeStrategy p, pt_isMultiword p)) (transformEmotionData emotions w h)
   = map (\<lambda>p. (pt_term p, pt_x p, pt_y p, pt_valence p, pt_arousal p, pt_confidence p,
                pt_mergeStrategy p, pt_isMultiword p)) (transformToRenderable emotions w h)"
  by (simp add: transformEmotionData_def transformToRenderable_def transformSingleEmotion_def)

lemma worker_color_never_fallback_color:
  "worker_getConfidenceColor c \<noteq> getConfidenceColor c"
  by (simp add: worker_getConfidenceColor_def getConfidenceColor_def
      CONFIDENCE_COLORS_HIGH_def CONFIDENCE_COLORS_MEDIUM_def CONFIDENCE_COLORS_LOW_def
      CONFIDENCE_THRESHOLDS_HIGH_def CONFIDENCE_THRESHOLDS_MEDIUM_def)

text \<open>
  Claim C1. The claim says that the worker's transformEmotionData and the fallback
  EmotionDataTransformer.transformToRenderable return identical point arrays. On the
  one-record input below (canvas 800 by 600) the worker returns colour #10b981 and
  size 2 while the fallback returns colour #7CB342 and size 3, so the two arrays differ.
\<close>

theorem transform_paths_differ_on_joy:
  "transformEmotionData
     [\<lparr> emo_term = ''joy'', emo_valence = 0.5, emo_arousal = 0.5, emo_dominance = None,
        emo_confidence = 0.9, mergeStrategy = unknown, isMultiword = False,
        metadata = None \<rparr>] 800 600
   = [\<lparr> pt_term = ''joy'', pt_x = 0.5, pt_y = 0.5, pt_valence = 0.5, pt_arousal = 0.5,
        pt_confidence = 0.9, pt_mergeStrategy = unknown, pt_isMultiword = False,
        pt_color = ''#10b981'', pt_size = 2 \<rparr>]
   \<and> transformToRenderable
     [\<lparr> emo_term = ''joy'', emo_valence = 0.5, emo_arousal = 0.5, emo_dominance = None,
        emo_confidence = 0.9, mergeStrategy = unknown, isMultiword = False,
        metadata = None \<rparr>] 800 600
   = [\<lparr> pt_term = ''joy'', pt_x = 0.5, pt_y = 0.5, pt_valence = 0.5, pt_arousal = 0.5,
        pt_confidence = 0.9, pt_mergeStrategy = unknown, pt_isMultiword = False,
        pt_color = ''#7CB342'', pt_size = 3 \<rparr>]
   \<and> transformEmotionData
     [\<lparr> emo_term = ''joy'', emo_valence = 0.5, emo_arousal = 0.5, emo_dominance = None,
        emo_confidence = 0.9, mergeStrategy = unknown, isMultiword = False,
        metadata = None \<rparr>] 800 600
   \<noteq> transformToRenderable
     [\<lparr> emo_term = ''joy'', emo_valence = 0.5, emo_arousal = 0.5, emo_dominance = None,
        emo_confidence = 0.9, mergeStrategy = unknown, isMultiword = False,
        metadata = None \<rparr>] 800 600"
  by (simp add: transformEmotionData_def transformToRenderable_def transformSingleEmotion_def
      worker_getConfidenceColor_def getConfidenceColor_def
      worker_POINT_SIZE_DEFAULT_def worker_POINT_SIZE_MULTIWORD_def
      POINT_SIZE_DEFAULT_def POINT_SIZE_MULTIWORD_def
      CONFIDENCE_COLORS_HIGH_def CONFIDENCE_COLORS_MEDIUM_def CONFIDENCE_COLORS_LOW_def
      CONFIDENCE_THRESHOLDS_HIGH_def CONFIDENCE_THRESHOLDS_MEDIUM_def)

subsection \<open>Cache: time to live\<close>

lemma map_of_cache_set_key:
  "map_of (cache (cache_set key d ttl_s now c)) key
     = Some \<lparr> data = d, timestamp = now, ttl = ttl_s * 1000 \<rparr>"
  by (simp add: cache_set_def Let_def update_conv' split: list.split)

lemma map_of_delete_key: "map_of (AList.delete key m) key = None"
  by (simp add: delete_conv')

text \<open>
  Claim C5. After set(k, v, ttl) at time \<open>t0\<close>: a get(k) at a time \<open>t\<close> with
  \<open>t - t0 \<le> ttl * 1000\<close> returns \<open>v\<close>; a get(k) or has(k) at a time with
  \<open>t - t0 > ttl * 1000\<close> returns null, respectively false, and the entry is no longer in
  the store afterwards.
\<close>

theorem cache_ttl_after_set:
  "(real_of_int (t - t0) \<le> ttl_s * 1000 \<longrightarrow>
      fst (cache_get k t (cache_set k v ttl_s t0 c)) = v)
   \<and> (real_of_int (t - t0) > ttl_s * 1000 \<longrightarrow>
      fst (cache_get k t (cache_set k v ttl_s t0 c)) = None
      \<and> map_of (cache (snd (cache_get k t (cache_set k v ttl_s t0 c)))) k = None
      \<and> k \<notin> set (cache_keys (snd (cache_get k t (cache_set k v ttl_s t0 c))))
      \<and> fst (cache_has k t (cache_set k v ttl_s t0 c)) = False
      \<and> map_of (cache (snd (cache_has k t (cache_set k v ttl_s t0 c)))) k = None
      \<and> k \<notin> set (cache_keys (snd (cache_has k t (cache_set k v ttl_s t0 c)))))"
  by (simp add: cache_get_def cache_has_def map_of_cache_set_key expired_def
      map_of_delete_key cache_keys_def delete_notin_dom)

theorem cache_ttl_after_set_witness:
  "fst (cache_get ''k'' 1000 (cache_set ''k'' (Some (7::nat)) 1 0 (DataCache_new 2))) = Some 7
   \<and> fst (cache_get ''k'' 1001 (cache_set ''k'' (Some (7::nat)) 1 0 (DataCache_new 2))) = None
   \<and> fst (cache_has ''k'' 1001 (cache_set ''k'' (Some (7::nat)) 1 0 (DataCache_new 2))) = False
   \<and> cache_keys (snd (cache_get ''k'' 1001
        (cache_set ''k'' (Some (7::nat)) 1 0 (DataCache_new 2)))) = []"
  using cache_ttl_after_set [of 1000 0 1 "''k''" "Some (7::nat)" "DataCache_new 2"]
    cache_ttl_after_set [of 1001 0 1 "''k''" "Some (7::nat)" "DataCache_new 2"]
  by (simp add: cache_get_def cache_has_def cache_set_def DataCache_new_def expired_def
      cache_keys_def Let_def)


subsection \<open>Cache: eviction and capacity\<close>

lemma update_fresh_append:
  "k \<notin> fst ` set m \<Longrightarrow> AList.update k v m = m @ [(k, v)]"
  by (induction m) auto

lemma delete_fresh_id:
  "k \<notin> fst ` set m \<Longrightarrow> AList.delete k m = m"
  by (induction m) auto

lemma cache_set_maxSize: "maxSize (cache_set key d ttl_s now c) = maxSize c"
  by (simp add: cache_set_def Let_def split: list.split)

lemma cache_set_below_capacity:
  "length (cache c) < maxSize c \<Longrightarrow>
   cache (cache_set key d ttl_s now c)
     = AList.update key \<lparr> data = d, timestamp = now, ttl = ttl_s * 1000 \<rparr> (cache c)"
  by (simp add: cache_set_def Let_def)

lemma cache_set_at_capacity:
  assumes "length (cache c) \<ge> maxSize c" "cache c \<noteq> []" "distinct (map fst (cache c))"
  shows "cache (cache_set key d ttl_s now c)
     = AList.update key \<lparr> data = d, timestamp = now, ttl = ttl_s * 1000 \<rparr> (tl (cache c))"
proof -
  obtain k0 e0 rest where m: "cache c = (k0, e0) # rest"
    using assms(2) by (cases "cache c") auto
  with assms(3) have "k0 \<notin> fst ` set rest" by simp
  then have "AList.delete k0 rest = rest" by (rule delete_fresh_id)
  with m assms(1) show ?thesis
    by (simp add: cache_set_def Let_def)
qed

lemma set_all_fill:
  "distinct (map fst (cache c) @ map fst ops) \<Longrightarrow>
   length (cache c) + length ops \<le> maxSize c \<Longrightarrow>
   map fst (cache (set_all ops c)) = map fst (cache c) @ map fst ops
   \<and> maxSize (set_all ops c) = maxSize c"
proof (induction ops arbitrary: c)
  case Nil
  then show ?case by simp
next
  case (Cons x ops)
  obtain key d ttl_s now where x: "x = (key, d, ttl_s, now)"
    by (cases x) auto
  let ?c1 = "cache_set key d ttl_s now c"
  from Cons.prems x have fresh: "key \<notin> fst ` set (cache c)" by auto
  from Cons.prems have below: "length (cache c) < maxSize c" by simp
  have c1: "cache ?c1 = cache c @ [(key, \<lparr> data = d, timestamp = now, ttl = ttl_s * 1000 \<rparr>)]"
    using fresh below by (simp add: cache_set_below_capacity update_fresh_append)
  have "distinct (map fst (cache ?c1) @ map fst ops)"
    using Cons.prems(1) x c1 by auto
  moreover have "length (cache ?c1) + length ops \<le> maxSize ?c1"
    using Cons.prems(2) c1 by (simp add: cache_set_maxSize)
  ultimately have "map fst (cache (set_all ops ?c1)) = map fst (cache ?c1) @ map fst ops
     \<and> maxSize (set_all ops ?c1) = maxSize ?c1"
    by (rule Cons.IH)
  then show ?case using x c1 by (simp add: cache_set_maxSize)
qed

lemma set_all_snoc:
  "set_all (ops @ [(key, d, ttl_s, now)]) c = cache_set key d ttl_s now (set_all ops c)"
  by (induction ops arbitrary: c) auto

text \<open>
  Claim C4. On an initially empty cache of capacity \<open>C \<ge> 1\<close>, after \<open>C + 1\<close> set
  calls with pairwise distinct keys (and nothing in between) the cache holds exactly
  \<open>C\<close> entries and the key inserted first is absent; the keys left are the other
  \<open>C\<close> keys in insertion order (eviction is first in, first out).
\<close>

theorem cache_fifo_eviction:
  assumes "1 \<le> C" and "length ops = C + 1" and "distinct (map fst ops)"
  shows "cache_size (set_all ops (DataCache_new C)) = C
    \<and> fst (hd ops) \<notin> set (cache_keys (set_all ops (DataCache_new C)))
    \<and> cache_keys (set_all ops (DataCache_new C)) = tl (map fst ops)"
proof -
  from assms(2) obtain xs x where ops: "ops = xs @ [x]" and len: "length xs = C"
    by (metis Suc_eq_plus1 length_Suc_conv_rev)
  obtain key d ttl_s now where x: "x = (key, d, ttl_s, now)"
    by (cases x) auto
  let ?init = "DataCache_new C :: 'a DataCache"
  let ?c = "set_all xs ?init"
  have "distinct (map fst (cache ?init) @ map fst xs)"
    using assms(3) ops by (simp add: DataCache_new_def)
  moreover have "length (cache ?init) + length xs \<le> maxSize ?init"
    using len by (simp add: DataCache_new_def)
  ultimately have fill: "map fst (cache ?c) = map fst (cache ?init) @ map fst xs
     \<and> maxSize ?c = maxSize ?init"
    by (rule set_all_fill)
  then have keys: "map fst (cache ?c) = map fst xs" and cap: "maxSize ?c = C"
    by (simp_all add: DataCache_new_def)
  from keys have lenc: "length (cache ?c) = C"
    using len by (metis length_map)
  with assms(1) have ne: "cache ?c \<noteq> []" by auto
  have dist: "distinct (map fst (cache ?c))"
    using keys assms(3) ops by simp
  have step: "cache (cache_set key d ttl_s now ?c)
      = AList.update key \<lparr> data = d, timestamp = now, ttl = ttl_s * 1000 \<rparr> (tl (cache ?c))"
    using lenc cap ne dist by (intro cache_set_at_capacity) simp_all
  have fresh: "key \<notin> fst ` set (tl (cache ?c))"
  proof -
    have "key \<notin> set (map fst xs)" using assms(3) ops x by simp
    then have "key \<notin> set (map fst (cache ?c))" using keys by simp
    then show ?thesis using ne by (cases "cache ?c") auto
  qed
  have final: "map fst (cache (set_all ops ?init)) = tl (map fst xs) @ [key]"
    using step fresh keys ops x
    by (simp add: set_all_snoc update_fresh_append map_tl)
  have xs_ne: "xs \<noteq> []" using len assms(1) by auto
  then have tl_eq: "tl (map fst ops) = tl (map fst xs) @ [key]"
    using ops x by (cases xs) auto
  have hd_eq: "fst (hd ops) = hd (map fst xs)"
    using xs_ne ops by (cases xs) auto
  have "hd (map fst xs) \<notin> set (tl (map fst xs) @ [key])"
    using assms(3) ops x xs_ne by (cases xs) auto
  moreover have "length (cache (set_all ops ?init)) = C"
  proof -
    have "length (map fst (cache (set_all ops ?init))) = length (tl (map fst xs) @ [key])"
      using final by simp
    then show ?thesis using len assms(1) by simp
  qed
  ultimately show ?thesis
    using final tl_eq hd_eq
    by (simp add: cache_size_def cache_keys_def)
qed

theorem cache_fifo_eviction_witness:
  "cache_size (set_all [(''a'', Some (1::nat), 60, 0), (''b'', Some 2, 60, 1),
       (''c'', Some 3, 60, 2)] (DataCache_new 2)) = 2
   \<and> ''a'' \<notin> set (cache_keys (set_all [(''a'', Some (1::nat), 60, 0), (''b'', Some 2, 60, 1),
       (''c'', Some 3, 60, 2)] (DataCache_new 2)))
   \<and> cache_keys (set_all [(''a'', Some (1::nat), 60, 0), (''b'', Some 2, 60, 1),
       (''c'', Some 3, 60, 2)] (DataCache_new 2)) = [''b'', ''c'']"
  using cache_fifo_eviction [of 2 "[(''a'', Some (1::nat), 60, 0), (''b'', Some 2, 60, 1),
       (''c'', Some 3, 60, 2)]"]
  by simp

lemma length_update_le: "length (AList.update k v m) \<le> Suc (length m)"
  by (induction m) auto


lemma bounded_distinct_delete:
  "length m \<le> n \<and> distinct (map fst m) \<Longrightarrow>
   length (AList.delete k m) \<le> n \<and> distinct (map fst (AList.delete k m))"
  using length_delete_le [of k m] by (simp add: distinct_delete)

lemma fold_deleteByPattern_bounded:
  "length m \<le> n \<and> distinct (map fst m) \<Longrightarrow>
   length (snd (fold (\<lambda>key (deleted, m).
       if test key then (deleted + 1, AList.delete key m) else (deleted, m)) ks (d::nat, m))) \<le> n
   \<and> distinct (map fst (snd (fold (\<lambda>key (deleted, m).
       if test key then (deleted + 1, AList.delete key m) else (deleted, m)) ks (d::nat, m))))"
proof (induction ks arbitrary: d m)
  case Nil
  then show ?case by simp
next
  case (Cons k ks)
  show ?case
  proof (cases "test k")
    case True
    have "length (AList.delete k m) \<le> n \<and> distinct (map fst (AList.delete k m))"
      using Cons.prems by (rule bounded_distinct_delete)
    then show ?thesis using True Cons.IH [of "AList.delete k m" "d + 1"] by simp
  next
    case False
    then show ?thesis using Cons.IH [of m d] Cons.prems by simp
  qed
qed

lemma fold_cleanup_bounded:
  "length m \<le> n \<and> distinct (map fst m) \<Longrightarrow>
   length (snd (fold (\<lambda>(key, entry) (cleaned, m).
       if expired now entry then (cleaned + 1, AList.delete key m) else (cleaned, m))
       es (d::nat, m))) \<le> n
   \<and> distinct (map fst (snd (fold (\<lambda>(key, entry) (cleaned, m).
       if expired now entry then (cleaned + 1, AList.delete key m) else (cleaned, m))
       es (d::nat, m))))"
proof (induction es arbitrary: d m)
  case Nil
  then show ?case by simp
next
  case (Cons e es)
  obtain k entry where e: "e = (k, entry)" by (cases e) auto
  show ?case
  proof (cases "expired now entry")
    case True
    have "length (AList.delete k m) \<le> n \<and> distinct (map fst (AList.delete k m))"
      using Cons.prems by (rule bounded_distinct_delete)
    then show ?thesis using True e Cons.IH [of "AList.delete k m" "d + 1"] by simp
  next
    case False
    then show ?thesis using e Cons.IH [of m d] Cons.prems by simp
  qed
qed

lemma cache_inv_set:
  assumes "1 \<le> n" "cache_inv n c"
  shows "cache_inv n (cache_set key d ttl_s now c)"
proof (cases "length (cache c) \<ge> maxSize c")
  case True
  from assms have ne: "cache c \<noteq> []" and dist: "distinct (map fst (cache c))"
    and len: "length (cache c) \<le> n" and cap: "maxSize c = n"
    using True by (auto simp: cache_inv_def)
  have eq: "cache (cache_set key d ttl_s now c)
      = AList.update key \<lparr> data = d, timestamp = now, ttl = ttl_s * 1000 \<rparr> (tl (cache c))"
    using True ne dist by (rule cache_set_at_capacity)
  have "length (tl (cache c)) < n" using ne len by (cases "cache c") auto
  then have "length (AList.update key \<lparr> data = d, timestamp = now, ttl = ttl_s * 1000 \<rparr>
      (tl (cache c))) \<le> n"
    using length_update_le [of key "\<lparr> data = d, timestamp = now, ttl = ttl_s * 1000 \<rparr>"
        "tl (cache c)"] by simp
  moreover have "distinct (map fst (tl (cache c)))"
    using dist by (simp add: map_tl distinct_tl)
  ultimately show ?thesis
    using eq cap by (simp add: cache_inv_def cache_set_maxSize distinct_update)
next
  case False
  then have "cache (cache_set key d ttl_s now c)
      = AList.update key \<lparr> data = d, timestamp = now, ttl = ttl_s * 1000 \<rparr> (cache c)"
    by (simp add: cache_set_below_capacity)
  moreover have "length (cache c) < n" using False assms(2) by (simp add: cache_inv_def)
  ultimately show ?thesis
    using assms(2) length_update_le [of key
        "\<lparr> data = d, timestamp = now, ttl = ttl_s * 1000 \<rparr>" "cache c"]
    by (simp add: cache_inv_def cache_set_maxSize distinct_update)
qed

lemma cache_inv_get: "cache_inv n c \<Longrightarrow> cache_inv n (snd (cache_get key now c))"
  using bounded_distinct_delete [of "cache c" n key]
  by (simp add: cache_inv_def cache_get_def split: option.split)

lemma cache_inv_has: "cache_inv n c \<Longrightarrow> cache_inv n (snd (cache_has key now c))"
  using bounded_distinct_delete [of "cache c" n key]
  by (simp add: cache_inv_def cache_has_def split: option.split)

lemma cache_inv_delete: "cache_inv n c \<Longrightarrow> cache_inv n (snd (cache_delete key c))"
  using bounded_distinct_delete [of "cache c" n key]
  by (simp add: cache_inv_def cache_delete_def)

lemma cache_deleteByPattern_snd:
  "snd (cache_deleteByPattern test c)
     = c\<lparr> cache := snd (fold (\<lambda>key (deleted, m).
          if test key then (deleted + 1, AList.delete key m) else (deleted, m))
          (map fst (cache c)) (0::nat, cache c)) \<rparr>"
  by (simp add: cache_deleteByPattern_def case_prod_unfold)

lemma cache_inv_deleteByPattern:
  "cache_inv n c \<Longrightarrow> cache_inv n (snd (cache_deleteByPattern test c))"
  using fold_deleteByPattern_bounded [of "cache c" n test "map fst (cache c)" 0]
  by (simp add: cache_inv_def cache_deleteByPattern_snd)

lemma cache_inv_clear: "cache_inv n c \<Longrightarrow> cache_inv n (cache_clear c)"
  by (simp add: cache_inv_def cache_clear_def)

lemma cache_cleanup_snd:
  "snd (cache_cleanup now c)
     = c\<lparr> cache := snd (fold (\<lambda>(key, entry) (cleaned, m).
          if expired now entry then (cleaned + 1, AList.delete key m) else (cleaned, m))
          (cache c) (0::nat, cache c)) \<rparr>"
  by (simp add: cache_cleanup_def case_prod_unfold)

lemma cache_inv_cleanup: "cache_inv n c \<Longrightarrow> cache_inv n (snd (cache_cleanup now c))"
  using fold_cleanup_bounded [of "cache c" n now "cache c" 0]
  by (simp add: cache_inv_def cache_cleanup_snd)

lemma cache_inv_getOrSetSync:
  assumes "1 \<le> n" "cache_inv n c"
  shows "cache_inv n (fst (snd (getOrSetSync key factory ttl_s now_get now_set (c, w))))"
proof -
  have g: "cache_inv n (snd (cache_get key now_get c))"
    using assms(2) by (rule cache_inv_get)
  show ?thesis
  proof (cases "cache_get key now_get c")
    case (Pair r c1)
    with g have c1: "cache_inv n c1" by simp
    show ?thesis
    proof (cases r)
      case None
      show ?thesis
      proof (cases "factory w")
        case (Pair out w1)
        then show ?thesis
          using None \<open>cache_get key now_get c = (r, c1)\<close> c1 cache_inv_set [OF assms(1) c1]
          by (cases out) (simp_all add: getOrSetSync_def)
      qed
    next
      case (Some v)
      then show ?thesis
        using \<open>cache_get key now_get c = (r, c1)\<close> c1 by (simp add: getOrSetSync_def)
    qed
  qed
qed

lemma cache_inv_getOrSet_start:
  "cache_inv n c \<Longrightarrow> cache_inv n (snd (getOrSet_start key now c))"
  using cache_inv_get [of n c key now]
  by (cases "cache_get key now c") (auto simp: getOrSet_start_def split: option.split)

lemma cache_inv_apply_op:
  assumes "1 \<le> n" "cache_inv n (fst cw)"
  shows "cache_inv n (fst (apply_op op cw))"
proof (cases cw)
  case (Pair c w)
  with assms(2) have c: "cache_inv n c" by simp
  show ?thesis
  proof (cases op)
    case (GetOrSetSync key factory ttl_s now_get now_set)
    then show ?thesis
      using Pair cache_inv_getOrSetSync [OF assms(1) c, of key factory ttl_s now_get now_set w]
      by (simp add: split_beta)
  qed (use Pair c assms(1) in \<open>simp_all add: cache_inv_set cache_inv_get cache_inv_has
        cache_inv_delete cache_inv_deleteByPattern cache_inv_clear cache_inv_cleanup
        cache_inv_getOrSet_start getOrSet_resume_def\<close>)
qed

lemma cache_inv_run_ops:
  "1 \<le> n \<Longrightarrow> cache_inv n (fst cw) \<Longrightarrow> cache_inv n (fst (run_ops ops cw))"
  by (induction ops arbitrary: cw) (simp_all add: cache_inv_apply_op)

lemma cache_inv_new: "cache_inv n (DataCache_new n)"
  by (simp add: cache_inv_def DataCache_new_def)

text \<open>
  Claim C8. For a cache constructed with \<open>maxSize = n \<ge> 1\<close>, after every sequence of
  set, get, has, delete, deleteByPattern, clear, cleanup, getOrSetSync and getOrSet turns the
  number of stored entries is at most \<open>n\<close>; and whenever the store holds \<open>n\<close>
  entries, a set drops the insertion-oldest entry and then stores the key, whether or
  not the key is already present.
\<close>

theorem cache_size_never_exceeds_maxSize:
  assumes "1 \<le> n"
  shows "cache_size (fst (run_ops ops (DataCache_new n, w))) \<le> n
    \<and> (cache_size (fst (run_ops ops (DataCache_new n, w))) = n \<longrightarrow>
         cache (cache_set key d ttl_s now (fst (run_ops ops (DataCache_new n, w))))
           = AList.update key \<lparr> data = d, timestamp = now, ttl = ttl_s * 1000 \<rparr>
               (tl (cache (fst (run_ops ops (DataCache_new n, w))))))"
proof -
  let ?c = "fst (run_ops ops (DataCache_new n, w))"
  have inv: "cache_inv n ?c"
    using assms cache_inv_new [of n] cache_inv_run_ops [of n "(DataCache_new n, w)" ops]
    by simp
  then have bound: "cache_size ?c \<le> n" by (simp add: cache_inv_def cache_size_def)
  have "cache (cache_set key d ttl_s now ?c)
      = AList.update key \<lparr> data = d, timestamp = now, ttl = ttl_s * 1000 \<rparr> (tl (cache ?c))"
    if full: "cache_size ?c = n"
  proof (rule cache_set_at_capacity)
    show "maxSize ?c \<le> length (cache ?c)"
      using inv full by (simp add: cache_inv_def cache_size_def)
    show "cache ?c \<noteq> []" using full assms by (auto simp: cache_size_def)
    show "distinct (map fst (cache ?c))" using inv by (simp add: cache_inv_def)
  qed
  with bound show ?thesis by blast
qed

text \<open>
  Eviction ignores reads: with capacity 2, after set a, set b, get a, set c the key read
  last (\<open>a\<close>) is the one evicted.
\<close>

lemma eviction_ignores_reads:
  "cache_keys (fst (run_ops [Set ''a'' (Some (1::nat)) 60 0, Set ''b'' (Some 2) 60 1,
       Get ''a'' 2, Set ''c'' (Some 3) 60 3] (DataCache_new 2, ()))) = [''b'', ''c'']"
  by (simp add: cache_keys_def cache_set_def cache_get_def DataCache_new_def expired_def
      Let_def)

theorem cache_size_never_exceeds_maxSize_witness:
  "cache_size (fst (run_ops [Set ''a'' (Some (1::nat)) 60 0, Set ''b'' (Some 2) 60 1]
       (DataCache_new 2, ()))) = 2
   \<and> cache (cache_set ''b'' (Some 9) 60 3
        (fst (run_ops [Set ''a'' (Some (1::nat)) 60 0, Set ''b'' (Some 2) 60 1]
           (DataCache_new 2, ()))))
     = [(''b'', \<lparr> data = Some 9, timestamp = 3, ttl = 60000 \<rparr>)]"
  using cache_size_never_exceeds_maxSize [of 2
      "[Set ''a'' (Some (1::nat)) 60 0, Set ''b'' (Some 2) 60 1]" "()" "''b''" "Some 9" 60 3]
  by (simp add: cache_size_def cache_set_def DataCache_new_def Let_def)

subsection \<open>Cache: stored null\<close>

lemma getOrSetSync_null_from_factory:
  assumes "getOrSetSync k f ttl_s t t' (c, w) = (Inr None, c1, w1)"
  shows "fst (cache_get k t c) = None \<and> f w = (Inr None, w1)
    \<and> c1 = cache_set k None ttl_s t' (snd (cache_get k t c))"
proof (cases "cache_get k t c")
  case (Pair r c')
  show ?thesis
  proof (cases r)
    case None
    obtain out w' where fw: "f w = (out, w')" by (cases "f w") auto
    with assms Pair None show ?thesis
      by (cases out) (auto simp: getOrSetSync_def)
  next
    case (Some v)
    with assms Pair show ?thesis by (simp add: getOrSetSync_def)
  qed
qed

lemma getOrSetSync_on_null_get:
  assumes "fst (cache_get k t c) = None"
  shows "getOrSetSync k g ttl_s t t' (c, w)
    = (case g w of
         (Inl err, w') \<Rightarrow> (Inl err, snd (cache_get k t c), w')
       | (Inr d, w') \<Rightarrow> (Inr d, cache_set k d ttl_s t' (snd (cache_get k t c)), w'))"
  using assms
  by (cases "cache_get k t c") (auto simp: getOrSetSync_def split: prod.split sum.split)

lemma cache_get_stored_null:
  assumes "map_of (cache c) k = Some e" "data e = None"
  shows "fst (cache_get k t c) = None"
    and "hits (snd (cache_get k t c)) = (if expired t e then hits c else hits c + 1)"
    and "misses (snd (cache_get k t c)) = (if expired t e then misses c + 1 else misses c)"
  using assms by (simp_all add: cache_get_def)

lemma cache_set_counters:
  "hits (cache_set k d ttl_s t c) = hits c \<and> misses (cache_set k d ttl_s t c) = misses c"
  by (simp add: cache_set_def Let_def split: list.split)

lemma getOrSet_start_on_null_get:
  assumes "fst (cache_get k t c) = None"
  shows "getOrSet_start k t c = (AwaitFactory, snd (cache_get k t c))"
  using assms by (cases "cache_get k t c") (simp add: getOrSet_start_def)

lemma getOrSet_start_Return:
  assumes "fst (getOrSet_start k t c) = Return v"
  shows "map_option data (map_of (cache c) k) = Some (Some v)"
proof (cases "map_of (cache c) k")
  case None
  with assms show ?thesis by (simp add: getOrSet_start_def cache_get_def)
next
  case (Some e)
  with assms show ?thesis
    by (cases "data e") (auto simp: getOrSet_start_def cache_get_def split: if_splits)
qed

lemma getOrSetSync_null_result:
  assumes "fst (getOrSetSync k g ttl_s t t' (c, w)) = Inr None"
  shows "fst (g w) = Inr None"
proof -
  obtain c1 w1 where res: "getOrSetSync k g ttl_s t t' (c, w) = (Inr None, c1, w1)"
    using assms by (cases "getOrSetSync k g ttl_s t t' (c, w)") auto
  have "g w = (Inr None, w1)"
    using getOrSetSync_null_from_factory [OF res] by simp
  then show ?thesis by simp
qed

text \<open>
  Claim C9. A null is never served from the cache by getOrSetSync or getOrSet. When a
  getOrSetSync call returns null the null is its factory's, and when getOrSet resumes with
  a null factory result it returns that null; in both cases the null is stored under the
  key. From the state so reached, the next getOrSetSync call calls its own factory (its
  result and the world are the factory's) and the next getOrSet call goes on to await its
  factory, then stores and returns whatever the factory gives. The get inside that next
  call, synchronous or not, is counted as a hit when the stored null has not expired and
  as a miss when it has. In any state, getOrSet returns a value without its factory only
  when that non-null value is stored under the key, and a null result of getOrSetSync is
  always its factory's.
\<close>

theorem null_result_never_served_from_cache:
  assumes "getOrSetSync k f ttl1 t1 t1' (c, w) = (Inr None, c1, w1)
    \<or> getOrSet_resume k None ttl1 t1' c = (r, c1)"
  shows "(getOrSetSync k f ttl1 t1 t1' (c, w) = (Inr None, c1, w1) \<longrightarrow> f w = (Inr None, w1))
    \<and> (getOrSet_resume k None ttl1 t1' c = (r, c1) \<longrightarrow> r = None)
    \<and> map_of (cache c1) k = Some \<lparr> data = None, timestamp = t1', ttl = ttl1 * 1000 \<rparr>
    \<and> getOrSetSync k g ttl2 t2 t2' (c1, w2)
        = (case g w2 of
             (Inl err, w3) \<Rightarrow> (Inl err, snd (cache_get k t2 c1), w3)
           | (Inr d, w3) \<Rightarrow> (Inr d, cache_set k d ttl2 t2' (snd (cache_get k t2 c1)), w3))
    \<and> getOrSet_start k t2 c1 = (AwaitFactory, snd (cache_get k t2 c1))
    \<and> getOrSet_resume k d ttl2 t2' c2 = (d, cache_set k d ttl2 t2' c2)
    \<and> map_of (cache (snd (getOrSet_resume k d ttl2 t2' c2))) k
        = Some \<lparr> data = d, timestamp = t2', ttl = ttl2 * 1000 \<rparr>
    \<and> hits (snd (cache_get k t2 c1))
        = (if real_of_int (t2 - t1') > ttl1 * 1000 then hits c1 else hits c1 + 1)
    \<and> misses (snd (cache_get k t2 c1))
        = (if real_of_int (t2 - t1') > ttl1 * 1000 then misses c1 + 1 else misses c1)
    \<and> hits (snd (getOrSet_start k t2 c1))
        = (if real_of_int (t2 - t1') > ttl1 * 1000 then hits c1 else hits c1 + 1)
    \<and> misses (snd (getOrSet_start k t2 c1))
        = (if real_of_int (t2 - t1') > ttl1 * 1000 then misses c1 + 1 else misses c1)
    \<and> hits (fst (snd (getOrSetSync k g ttl2 t2 t2' (c1, w2))))
        = (if real_of_int (t2 - t1') > ttl1 * 1000 then hits c1 else hits c1 + 1)
    \<and> misses (fst (snd (getOrSetSync k g ttl2 t2 t2' (c1, w2))))
        = (if real_of_int (t2 - t1') > ttl1 * 1000 then misses c1 + 1 else misses c1)
    \<and> (fst (getOrSet_start k t0 c0) = Return v
         \<longrightarrow> map_option data (map_of (cache c0) k) = Some (Some v))
    \<and> (fst (getOrSetSync k g ttl2 t0 t0' (c0, w0)) = Inr None \<longrightarrow> fst (g w0) = Inr None)"
proof -
  let ?e = "\<lparr> data = None :: 'a option, timestamp = t1', ttl = ttl1 * 1000 \<rparr>"
  have sync: "f w = (Inr None, w1) \<and> c1 = cache_set k None ttl1 t1' (snd (cache_get k t1 c))"
    if "getOrSetSync k f ttl1 t1 t1' (c, w) = (Inr None, c1, w1)"
    using getOrSetSync_null_from_factory [OF that] by simp
  have async: "r = None \<and> c1 = cache_set k None ttl1 t1' c"
    if "getOrSet_resume k None ttl1 t1' c = (r, c1)"
    using that by (auto simp: getOrSet_resume_def)
  have stored: "map_of (cache c1) k = Some ?e"
    using assms sync async by (auto simp: map_of_cache_set_key)
  have null: "fst (cache_get k t2 c1) = None"
    using stored by (rule cache_get_stored_null) simp
  have second: "getOrSetSync k g ttl2 t2 t2' (c1, w2)
        = (case g w2 of
             (Inl err, w3) \<Rightarrow> (Inl err, snd (cache_get k t2 c1), w3)
           | (Inr d, w3) \<Rightarrow> (Inr d, cache_set k d ttl2 t2' (snd (cache_get k t2 c1)), w3))"
    using null by (rule getOrSetSync_on_null_get)
  have start: "getOrSet_start k t2 c1 = (AwaitFactory, snd (cache_get k t2 c1))"
    using null by (rule getOrSet_start_on_null_get)
  have resume: "getOrSet_resume k d ttl2 t2' c2 = (d, cache_set k d ttl2 t2' c2)"
    by (simp add: getOrSet_resume_def)
  have resume_stored: "map_of (cache (snd (getOrSet_resume k d ttl2 t2' c2))) k
        = Some \<lparr> data = d, timestamp = t2', ttl = ttl2 * 1000 \<rparr>"
    by (simp add: getOrSet_resume_def map_of_cache_set_key)
  have h: "hits (snd (cache_get k t2 c1))
      = (if real_of_int (t2 - t1') > ttl1 * 1000 then hits c1 else hits c1 + 1)"
    using cache_get_stored_null(2) [OF stored, of t2] by (simp add: expired_def)
  have m: "misses (snd (cache_get k t2 c1))
      = (if real_of_int (t2 - t1') > ttl1 * 1000 then misses c1 + 1 else misses c1)"
    using cache_get_stored_null(3) [OF stored, of t2] by (simp add: expired_def)
  have hs: "hits (snd (getOrSet_start k t2 c1)) = hits (snd (cache_get k t2 c1))"
    and ms: "misses (snd (getOrSet_start k t2 c1)) = misses (snd (cache_get k t2 c1))"
    using start by simp_all
  have hy: "hits (fst (snd (getOrSetSync k g ttl2 t2 t2' (c1, w2))))
      = hits (snd (cache_get k t2 c1))"
    and my: "misses (fst (snd (getOrSetSync k g ttl2 t2 t2' (c1, w2))))
      = misses (snd (cache_get k t2 c1))"
    unfolding second
    by (cases "g w2"; cases "fst (g w2)"; simp add: cache_set_counters)+
  have ret: "map_option data (map_of (cache c0) k) = Some (Some v)"
    if "fst (getOrSet_start k t0 c0) = Return v"
    using that by (rule getOrSet_start_Return)
  have nul: "fst (g w0) = Inr None"
    if "fst (getOrSetSync k g ttl2 t0 t0' (c0, w0)) = Inr None"
    using that by (rule getOrSetSync_null_result)
  show ?thesis
    using sync async stored second start resume resume_stored h m hs ms hy my ret nul
    by (intro conjI impI) simp_all
qed

theorem null_result_never_served_from_cache_witness:
  "getOrSetSync ''k'' (\<lambda>n::nat. (Inr (None :: nat option), Suc n)) 60 5 5
      (\<lparr> cache = [(''k'', \<lparr> data = None, timestamp = 0, ttl = 60000 \<rparr>)],
         hits = 0, misses = 1, maxSize = 2 \<rparr>, Suc 0)
   = (Inr None,
      \<lparr> cache = [(''k'', \<lparr> data = None, timestamp = 5, ttl = 60000 \<rparr>)],
        hits = 1, misses = 1, maxSize = 2 \<rparr>, Suc (Suc 0))
   \<and> getOrSet_resume ''k'' (None :: nat option) 60 0 (DataCache_new 2)
     = (None, \<lparr> cache = [(''k'', \<lparr> data = None, timestamp = 0, ttl = 60000 \<rparr>)],
          hits = 0, misses = 0, maxSize = 2 \<rparr>)
   \<and> getOrSet_start ''k'' 5
       (\<lparr> cache = [(''k'', \<lparr> data = (None :: nat option), timestamp = 0, ttl = 60000 \<rparr>)],
          hits = 0, misses = 0, maxSize = 2 \<rparr>)
     = (AwaitFactory,
        \<lparr> cache = [(''k'', \<lparr> data = None, timestamp = 0, ttl = 60000 \<rparr>)],
          hits = 1, misses = 0, maxSize = 2 \<rparr>)
   \<and> getOrSet_start ''k'' 60001
       (\<lparr> cache = [(''k'', \<lparr> data = (None :: nat option), timestamp = 0, ttl = 60000 \<rparr>)],
          hits = 0, misses = 0, maxSize = 2 \<rparr>)
     = (AwaitFactory, \<lparr> cache = [], hits = 0, misses = 1, maxSize = 2 \<rparr>)
   \<and> getOrSet_resume ''k'' (Some (4::nat)) 60 6
       (\<lparr> cache = [(''k'', \<lparr> data = None, timestamp = 0, ttl = 60000 \<rparr>)],
          hits = 1, misses = 0, maxSize = 2 \<rparr>)
     = (Some 4, \<lparr> cache = [(''k'', \<lparr> data = Some 4, timestamp = 6, ttl = 60000 \<rparr>)],
          hits = 1, misses = 0, maxSize = 2 \<rparr>)"
proof -
  have first_sync: "getOrSetSync ''k'' (\<lambda>n::nat. (Inr (None :: nat option), Suc n)) 60 0 0
      (DataCache_new 2, 0)
    = (Inr None, \<lparr> cache = [(''k'', \<lparr> data = None, timestamp = 0, ttl = 60000 \<rparr>)],
        hits = 0, misses = 1, maxSize = 2 \<rparr>, Suc 0)"
    by (simp add: getOrSetSync_def cache_get_def cache_set_def DataCache_new_def Let_def)
  have first_async: "getOrSet_resume ''k'' (None :: nat option) 60 0 (DataCache_new 2)
    = (None, \<lparr> cache = [(''k'', \<lparr> data = None, timestamp = 0, ttl = 60000 \<rparr>)],
        hits = 0, misses = 0, maxSize = 2 \<rparr>)"
    by (simp add: getOrSet_resume_def cache_set_def DataCache_new_def Let_def)
  let ?F = "\<lambda>n::nat. (Inr (None :: nat option), Suc n)"
  let ?stored = "\<lparr> cache = [(''k'', \<lparr> data = (None :: nat option), timestamp = 0,
      ttl = 60000 \<rparr>)], hits = 0, misses = 0, maxSize = 2 \<rparr>"
  let ?read = "\<lparr> cache = [(''k'', \<lparr> data = (None :: nat option), timestamp = 0,
      ttl = 60000 \<rparr>)], hits = 1, misses = 0, maxSize = 2 \<rparr>"
  note sync_case = null_result_never_served_from_cache
    [OF disjI1 [OF first_sync],
      where g = ?F and ?ttl2.0 = 60 and ?t2.0 = 5 and t2' = 5 and ?w2.0 = "Suc 0"
        and d = "Some 4" and ?c2.0 = ?read and ?t0.0 = 5 and ?c0.0 = ?stored and v = 0
        and t0' = 5 and ?w0.0 = 0]
  note async_case = null_result_never_served_from_cache
    [OF disjI2 [OF first_async],
      where g = ?F and ?ttl2.0 = 60 and ?t2.0 = 5 and t2' = 6 and ?w2.0 = "Suc 0"
        and d = "Some 4" and ?c2.0 = ?read and ?t0.0 = 5 and ?c0.0 = ?stored and v = 0
        and t0' = 5 and ?w0.0 = 0 and f = ?F and ?t1.0 = 0 and w = 0 and ?w1.0 = 0]
  note async_expired = null_result_never_served_from_cache
    [OF disjI2 [OF first_async],
      where g = ?F and ?ttl2.0 = 60 and ?t2.0 = 60001 and t2' = 6 and ?w2.0 = "Suc 0"
        and d = "Some 4" and ?c2.0 = ?read and ?t0.0 = 5 and ?c0.0 = ?stored and v = 0
        and t0' = 5 and ?w0.0 = 0 and f = ?F and ?t1.0 = 0 and w = 0 and ?w1.0 = 0]
  show ?thesis
    using sync_case async_case async_expired
    by (simp add: first_async cache_get_def cache_set_def expired_def Let_def)
qed

subsection \<open>Loader: batches and progress\<close>


lemma batch_loop_acc:
  "batch_loop i j totalChunks chunkIds
     = chunkIds @ map (\<lambda>k. i + k) [j ..< min MAX_CONCURRENT_REQUESTS (totalChunks - i)]"
proof (induction i j totalChunks chunkIds rule: batch_loop.induct)
  case (1 i j totalChunks chunkIds)
  show ?case
  proof (cases "j < MAX_CONCURRENT_REQUESTS \<and> i + j < totalChunks")
    case True
    then have lt: "j < min MAX_CONCURRENT_REQUESTS (totalChunks - i)" by arith
    have "batch_loop i j totalChunks chunkIds
        = batch_loop i (j + 1) totalChunks (chunkIds @ [i + j])"
      using True by (subst batch_loop.simps) simp
    also have "\<dots> = (chunkIds @ [i + j])
        @ map (\<lambda>k. i + k) [j + 1 ..< min MAX_CONCURRENT_REQUESTS (totalChunks - i)]"
      using True by (rule "1.IH")
    also have "\<dots> = chunkIds
        @ map (\<lambda>k. i + k) [j ..< min MAX_CONCURRENT_REQUESTS (totalChunks - i)]"
      using lt by (simp add: upt_conv_Cons)
    finally show ?thesis .
  next
    case False
    then have "min MAX_CONCURRENT_REQUESTS (totalChunks - i) \<le> j" by arith
    then have "[j ..< min MAX_CONCURRENT_REQUESTS (totalChunks - i)] = []"
      by (simp only: upt_eq_Nil_conv simp_thms)
    moreover have "batch_loop i j totalChunks chunkIds = chunkIds"
      by (subst batch_loop.simps) (simp add: False)
    ultimately show ?thesis by simp
  qed
qed

lemma batch_loop_upt:
  "batch_loop i 0 totalChunks [] = [i ..< min (i + MAX_CONCURRENT_REQUESTS) totalChunks]"
proof -
  have "map (\<lambda>k. i + k) [0 ..< min MAX_CONCURRENT_REQUESTS (totalChunks - i)]
      = [i ..< min MAX_CONCURRENT_REQUESTS (totalChunks - i) + i]"
    using map_add_upt [of i "min MAX_CONCURRENT_REQUESTS (totalChunks - i)"]
    by (simp add: add.commute)
  moreover have "[i ..< min MAX_CONCURRENT_REQUESTS (totalChunks - i) + i]
      = [i ..< min (i + MAX_CONCURRENT_REQUESTS) totalChunks]"
  proof (cases "i \<le> totalChunks")
    case True
    then have "min MAX_CONCURRENT_REQUESTS (totalChunks - i) + i
        = min (i + MAX_CONCURRENT_REQUESTS) totalChunks" by arith
    then show ?thesis by simp
  next
    case False
    then show ?thesis by simp
  qed
  ultimately show ?thesis by (simp add: batch_loop_acc)
qed

lemma length_batch_loop_le:
  "length (batch_loop i 0 totalChunks []) \<le> MAX_CONCURRENT_REQUESTS"
  by (simp add: batch_loop_upt)

lemma Promise_all_Inr:
  "Promise_all ps = Inr vs \<Longrightarrow> ps = map Inr vs"
  by (induction ps arbitrary: vs rule: Promise_all.induct) (auto split: sum.splits)

lemma forEach_chunk_eq:
  "forEach_chunk chunks totalChunks loadedChunks calls
     = (loadedChunks + length chunks,
        calls @ map (\<lambda>(k, chunk). (real (k + 1) / real totalChunks * 100, chunk))
                  (zip [loadedChunks ..< loadedChunks + length chunks] chunks))"
proof (induction chunks arbitrary: loadedChunks calls)
  case Nil
  then show ?case by simp
next
  case (Cons chunk chunks)
  have "[loadedChunks ..< loadedChunks + length (chunk # chunks)]
      = loadedChunks # [loadedChunks + 1 ..< (loadedChunks + 1) + length chunks]"
    by (subst upt_rec) simp
  then show ?case using Cons.IH [of "loadedChunks + 1"] by simp
qed


lemma load_loop_success:
  "load_loop load totalChunks i loadedChunks calls = (calls', Inr ()) \<Longrightarrow>
   loadedChunks = min i totalChunks \<Longrightarrow>
   \<exists>chunks. map load [loadedChunks ..< totalChunks] = map Inr chunks
     \<and> calls' = calls @ progress_calls totalChunks [loadedChunks ..< totalChunks] chunks"
proof (induction load totalChunks i loadedChunks calls rule: load_loop.induct)
  case (1 load totalChunks i loadedChunks calls)
  show ?case
  proof (cases "i < totalChunks")
    case False
    then have "load_loop load totalChunks i loadedChunks calls = (calls, Inr ())"
      by (subst load_loop.simps) simp
    with "1.prems" False show ?thesis by (simp add: progress_calls_def)
  next
    case True
    with "1.prems"(2) have loaded: "loadedChunks = i" by simp
    let ?hi = "min (i + MAX_CONCURRENT_REQUESTS) totalChunks"
    have batch: "batch_loop i 0 totalChunks [] = [i ..< ?hi]" by (rule batch_loop_upt)
    have unfold: "load_loop load totalChunks i loadedChunks calls
      = (case Promise_all (map load [i ..< ?hi]) of
           Inl errs \<Rightarrow> (calls, Inl errs)
         | Inr chunks \<Rightarrow>
             (case forEach_chunk chunks totalChunks loadedChunks calls of
                (loadedChunks', calls') \<Rightarrow>
                  load_loop load totalChunks (i + MAX_CONCURRENT_REQUESTS) loadedChunks' calls'))"
      using True by (subst load_loop.simps) (simp add: batch)
    obtain chunks where all: "Promise_all (map load [i ..< ?hi]) = Inr chunks"
      using "1.prems"(1) unfold by (cases "Promise_all (map load [i ..< ?hi])") auto
    then have loads: "map load [i ..< ?hi] = map Inr chunks" by (rule Promise_all_Inr)
    then have "length (map load [i ..< ?hi]) = length (map Inr chunks :: (load_error + emotion list) list)"
      by simp
    then have len: "length chunks = ?hi - i" by simp
    have hi: "i + length chunks = ?hi" using len True by arith
    let ?calls1 = "calls @ progress_calls totalChunks [i ..< ?hi] chunks"
    have each: "forEach_chunk chunks totalChunks loadedChunks calls = (?hi, ?calls1)"
      using hi loaded by (simp add: forEach_chunk_eq progress_calls_def)
    have rec: "load_loop load totalChunks (i + MAX_CONCURRENT_REQUESTS) ?hi ?calls1
        = (calls', Inr ())"
      using "1.prems"(1) unfold all each by simp
    have all': "Promise_all (map load (batch_loop i 0 totalChunks [])) = Inr chunks"
      using all batch by simp
    have each': "(?hi, ?calls1) = forEach_chunk chunks totalChunks loadedChunks calls"
      using each by simp
    have "\<exists>chunks2. map load [?hi ..< totalChunks] = map Inr chunks2
       \<and> calls' = ?calls1 @ progress_calls totalChunks [?hi ..< totalChunks] chunks2"
      using "1.IH" [OF True all' each' rec] by simp
    then obtain chunks2 where l2: "map load [?hi ..< totalChunks] = map Inr chunks2"
      and c2: "calls' = ?calls1 @ progress_calls totalChunks [?hi ..< totalChunks] chunks2"
      by blast
    have split: "[i ..< totalChunks] = [i ..< ?hi] @ [?hi ..< totalChunks]"
    proof -
      have le: "i \<le> ?hi" using True by arith
      have "?hi + (totalChunks - ?hi) = totalChunks" by arith
      then show ?thesis using upt_add_eq_append [OF le, of "totalChunks - ?hi"] by simp
    qed
    have "map load [loadedChunks ..< totalChunks] = map Inr (chunks @ chunks2)"
      using loaded split loads l2 by simp
    moreover have "progress_calls totalChunks [i ..< totalChunks] (chunks @ chunks2)
        = progress_calls totalChunks [i ..< ?hi] chunks
          @ progress_calls totalChunks [?hi ..< totalChunks] chunks2"
      using split len by (simp add: progress_calls_def)
    ultimately have "map load [loadedChunks ..< totalChunks] = map Inr (chunks @ chunks2)
        \<and> calls' = calls @ progress_calls totalChunks [loadedChunks ..< totalChunks]
              (chunks @ chunks2)"
      using c2 loaded by simp
    then show ?thesis by (rule exI)
  qed
qed

lemma getMetadata_memo:
  "getMetadata memo fetched = (Inr md, memo') \<Longrightarrow> memo' = Some md"
  by (auto simp: getMetadata_def split: option.splits if_splits)

lemma loadDataProgressively_success:
  assumes "loadDataProgressively memo fetched fetch = (calls, Inr (), Some md)"
  shows "load_loop (loadChunk fetch) (md_totalChunks md) 0 0 [] = (calls, Inr ())"
proof (cases "getMetadata memo fetched")
  case (Pair r memo')
  show ?thesis
  proof (cases r)
    case (Inl e)
    with assms Pair show ?thesis by (simp add: loadDataProgressively_def)
  next
    case (Inr md')
    with Pair have "memo' = Some md'" by (simp add: getMetadata_memo)
    with assms Pair Inr show ?thesis
      by (cases "load_loop (loadChunk fetch) (md_totalChunks md') 0 0 []")
        (simp add: loadDataProgressively_def)
  qed
qed

lemma progress_calls_nth:
  assumes "length chunks = n" "k < n"
  shows "progress_calls totalChunks [0 ..< n] chunks ! k
    = (real (k + 1) / real totalChunks * 100, chunks ! k)"
  using assms by (simp add: progress_calls_def)

text \<open>
  Claim C3. When a loadDataProgressively call succeeds with \<open>totalChunks = N > 0\<close>,
  onProgress has been called exactly \<open>N\<close> times; the call number \<open>k + 1\<close> carries
  the progress \<open>(k + 1) / N * 100\<close> and the normalized chunk \<open>k\<close>; the progress values
  are non-decreasing and the last one is exactly 100.
\<close>

theorem progress_once_per_chunk:
  assumes "loadDataProgressively memo fetched fetch = (calls, Inr (), Some md)"
    and "0 < md_totalChunks md"
  shows "length calls = md_totalChunks md
    \<and> (\<forall>k < md_totalChunks md.
          fst (calls ! k) = real (k + 1) / real (md_totalChunks md) * 100
          \<and> loadChunk fetch k = Inr (snd (calls ! k)))
    \<and> sorted (map fst calls)
    \<and> fst (last calls) = 100"
proof -
  let ?N = "md_totalChunks md"
  have loop: "load_loop (loadChunk fetch) ?N 0 0 [] = (calls, Inr ())"
    using assms(1) by (rule loadDataProgressively_success)
  have "\<exists>chunks. map (loadChunk fetch) [0 ..< ?N] = map Inr chunks
     \<and> calls = [] @ progress_calls ?N [0 ..< ?N] chunks"
    using loop by (rule load_loop_success) simp
  then obtain chunks where loads: "map (loadChunk fetch) [0 ..< ?N] = map Inr chunks"
    and calls: "calls = progress_calls ?N [0 ..< ?N] chunks"
    by auto
  have "length (map (loadChunk fetch) [0 ..< ?N])
      = length (map Inr chunks :: (load_error + emotion list) list)"
    using loads by simp
  then have len: "length chunks = ?N" by simp
  then have lcalls: "length calls = ?N" using calls by (simp add: progress_calls_def)
  have nth: "calls ! k = (real (k + 1) / real ?N * 100, chunks ! k)" if "k < ?N" for k
    using calls progress_calls_nth [OF len that] by simp
  have chunk: "loadChunk fetch k = Inr (chunks ! k)" if "k < ?N" for k
  proof -
    have "map (loadChunk fetch) [0 ..< ?N] ! k = (map Inr chunks) ! k" using loads by simp
    then show ?thesis using that len by simp
  qed
  have mono: "sorted (map fst calls)"
  proof (rule sorted_iff_nth_mono [THEN iffD2], intro allI impI)
    fix a b assume ab: "a \<le> b" "b < length (map fst calls)"
    then have "a < ?N" "b < ?N" using lcalls by simp_all
    then have "map fst calls ! a = real (a + 1) / real ?N * 100"
      and "map fst calls ! b = real (b + 1) / real ?N * 100"
      using nth lcalls by simp_all
    moreover have "real (a + 1) / real ?N * 100 \<le> real (b + 1) / real ?N * 100"
      using ab(1) assms(2) by (simp add: divide_right_mono)
    ultimately show "map fst calls ! a \<le> map fst calls ! b" by simp
  qed
  have ne: "calls \<noteq> []" using lcalls assms(2) by auto
  have "last calls = calls ! (?N - 1)" using last_conv_nth [OF ne] lcalls by simp
  also have "\<dots> = (real (?N - 1 + 1) / real ?N * 100, chunks ! (?N - 1))"
    using assms(2) by (intro nth) simp
  finally have "fst (last calls) = real (?N - 1 + 1) / real ?N * 100" by simp
  then have final: "fst (last calls) = 100" using assms(2) by simp
  from lcalls nth chunk mono final show ?thesis by simp
qed

theorem progress_once_per_chunk_witness:
  "fst (loadDataProgressively None
      (Some \<lparr> ok = True,
              json = Some \<lparr> md_totalCount = 100, md_chunkSize = 50, md_totalChunks = 2 \<rparr> \<rparr>)
      (\<lambda>chunkId. Some \<lparr> ok = True, json = Some [] \<rparr>))
     = [(50, []), (100, [])]
   \<and> length (fst (loadDataProgressively None
      (Some \<lparr> ok = True,
              json = Some \<lparr> md_totalCount = 100, md_chunkSize = 50, md_totalChunks = 2 \<rparr> \<rparr>)
      (\<lambda>chunkId. Some \<lparr> ok = True, json = Some [] \<rparr>))) = 2
   \<and> fst (last (fst (loadDataProgressively None
      (Some \<lparr> ok = True,
              json = Some \<lparr> md_totalCount = 100, md_chunkSize = 50, md_totalChunks = 2 \<rparr> \<rparr>)
      (\<lambda>chunkId. Some \<lparr> ok = True, json = Some [] \<rparr>)))) = 100"
proof -
  have batch: "batch_loop 0 0 2 [] = [0, 1]"
    by (simp add: batch_loop.simps [of 0] MAX_CONCURRENT_REQUESTS_def)
  have second: "load_loop load 2 MAX_CONCURRENT_REQUESTS n cs = (cs, Inr ())" for load n cs
    by (subst load_loop.simps) (simp add: MAX_CONCURRENT_REQUESTS_def)
  have ev: "loadDataProgressively None
      (Some \<lparr> ok = True,
              json = Some \<lparr> md_totalCount = 100, md_chunkSize = 50, md_totalChunks = 2 \<rparr> \<rparr>)
      (\<lambda>chunkId. Some \<lparr> ok = True, json = Some [] \<rparr>)
    = ([(50, []), (100, [])], Inr (),
       Some \<lparr> md_totalCount = 100, md_chunkSize = 50, md_totalChunks = 2 \<rparr>)"
    by (simp add: loadDataProgressively_def getMetadata_def load_loop.simps [of _ 2 0]
        batch second loadChunk_def)
  show ?thesis
    using progress_once_per_chunk [OF ev] by (simp add: ev)
qed

subsection \<open>Loader: the per-record normalizer\<close>

lemma normalizeEmotionData_copies:
  "emo_term (normalizeEmotionData raw) = raw_term raw
   \<and> emo_valence (normalizeEmotionData raw) = raw_valence raw
   \<and> emo_arousal (normalizeEmotionData raw) = raw_arousal raw
   \<and> (raw_confidence raw = Some c \<longrightarrow> emo_confidence (normalizeEmotionData raw) = c)"
  by (simp add: normalizeEmotionData_def)

text \<open>
  Claim C2. The claim says that the loader's normalizer clamps valence and arousal into
  [-1, 1] and confidence into [0, 1] and trims and lower-cases the term. The loader's
  normalizeEmotionData copies the four fields unchanged: on the raw record with term
  "JOY ", valence 5, arousal -5 and confidence 2 it returns term "JOY ", valence 5,
  arousal -5 and confidence 2.
\<close>

theorem normalizeEmotionData_scenario_B:
  "normalizeEmotionData
     \<lparr> raw_term = ''JOY '', raw_valence = 5, raw_arousal = -5, raw_dominance = None,
       raw_confidence = Some 2, merge_strategy = None, source_warriner = None,
       source_nrc = None, is_multiword = None \<rparr>
   = \<lparr> emo_term = ''JOY '', emo_valence = 5, emo_arousal = -5, emo_dominance = None,
       emo_confidence = 2, mergeStrategy = unknown, isMultiword = False,
       metadata = Some \<lparr> sourceWarriner = None, sourceNRC = None,
         rawData = \<lparr> raw_term = ''JOY '', raw_valence = 5, raw_arousal = -5,
           raw_dominance = None, raw_confidence = Some 2, merge_strategy = None,
           source_warriner = None, source_nrc = None, is_multiword = None \<rparr> \<rparr> \<rparr>"
  by (simp add: normalizeEmotionData_def normalizeMergeStrategy_def)

subsection \<open>Loader: fetches in flight\<close>

lemma length_remove1_le: "length (remove1 c xs) \<le> length xs"
  by (induction xs) auto

lemma load_inv_step: "load_inv s \<Longrightarrow> load_inv (load_step totalChunks e s)"
proof (cases e)
  case Continue
  assume "load_inv s"
  then show ?thesis using Continue length_batch_loop_le [of "loop_i s" totalChunks]
    by (simp add: load_inv_def)
next
  case (ChunkFulfilled c)
  assume "load_inv s"
  then show ?thesis using ChunkFulfilled length_remove1_le [of c "in_flight s"]
    by (auto simp: load_inv_def)
next
  case (ChunkRejected c)
  assume "load_inv s"
  then show ?thesis using ChunkRejected length_remove1_le [of c "in_flight s"]
    by (auto simp: load_inv_def)
qed

lemma load_inv_run: "load_inv s \<Longrightarrow> load_inv (load_run totalChunks es s)"
  by (induction es arbitrary: s) (simp_all add: load_inv_step)

lemma load_step_issues:
  assumes "load_inv s" "c \<in> set (in_flight (load_step totalChunks e s))" "c \<notin> set (in_flight s)"
  shows "e = Continue \<and> in_flight s = []"
proof (cases e)
  case Continue
  with assms show ?thesis by (auto simp: load_inv_def split: if_splits)
next
  case (ChunkFulfilled d)
  with assms(2,3) show ?thesis
    by (auto split: if_splits dest: notin_set_remove1)
next
  case (ChunkRejected d)
  with assms(2,3) show ?thesis
    by (auto split: if_splits dest: notin_set_remove1)
qed

text \<open>
  Claim C7. During a loadDataProgressively call the constant is 8, every batch the inner
  loop builds has at most 8 chunk ids, at every moment at most 8 chunk fetches are in
  flight, and a chunk fetch is only ever issued by the call running on from its loop test
  at a moment when no fetch is in flight (every fetch of the batch before has settled).
\<close>

theorem in_flight_bounded:
  "MAX_CONCURRENT_REQUESTS = 8
   \<and> length (batch_loop i 0 totalChunks []) \<le> 8
   \<and> length (in_flight (load_run totalChunks es load_init)) \<le> 8
   \<and> (c \<in> set (in_flight (load_step totalChunks e (load_run totalChunks es load_init)))
        \<and> c \<notin> set (in_flight (load_run totalChunks es load_init))
      \<longrightarrow> e = Continue \<and> in_flight (load_run totalChunks es load_init) = [])"
proof -
  have inv: "load_inv (load_run totalChunks es load_init)"
    by (rule load_inv_run) (simp add: load_inv_def load_init_def)
  have m: "MAX_CONCURRENT_REQUESTS = 8" by (simp add: MAX_CONCURRENT_REQUESTS_def)
  have b: "length (batch_loop i 0 totalChunks []) \<le> 8"
    using length_batch_loop_le [of i totalChunks] m by simp
  have f: "length (in_flight (load_run totalChunks es load_init)) \<le> 8"
    using inv m by (simp add: load_inv_def)
  from m b f load_step_issues [OF inv] show ?thesis by blast
qed

theorem in_flight_bounded_witness:
  "in_flight (load_run 10 [Continue] load_init) = [0, 1, 2, 3, 4, 5, 6, 7]
   \<and> in_flight (load_run 10 [Continue, ChunkFulfilled 3, Continue] load_init)
       = [0, 1, 2, 4, 5, 6, 7]
   \<and> in_flight (load_run 10 [] load_init) = []"
proof -
  have batch: "batch_loop 0 0 10 [] = [0, 1, 2, 3, 4, 5, 6, 7]"
    by (simp add: batch_loop_upt MAX_CONCURRENT_REQUESTS_def upt_rec)
  have "(3::nat) \<in> set (in_flight (load_step 10 Continue (load_run 10 [] load_init)))
      \<and> 3 \<notin> set (in_flight (load_run 10 [] load_init))"
    by (simp add: load_init_def batch)
  then have "in_flight (load_run 10 [] load_init) = []"
    using in_flight_bounded [of 0 10 "[]" 3 Continue] by blast
  then show ?thesis by (simp add: load_init_def batch)
qed

subsection \<open>Manager: settling requests\<close>

lemma manager_inv_init: "manager_inv manager_init"
  by (simp add: manager_inv_def manager_init_def)

lemma manager_inv_initialize: "manager_inv s \<Longrightarrow> manager_inv (initialize a s)"
  by (simp add: manager_inv_def initialize_def)

lemma manager_inv_terminate: "manager_inv s \<Longrightarrow> manager_inv (terminate s)"
  by (simp add: manager_inv_def terminate_def)

lemma issued_mono: "issued n mid \<Longrightarrow> issued (Suc n) mid"
  by (cases mid) (simp_all add: issued_def)

lemma not_issued_next: "issued n (MsgId (Suc n)) \<Longrightarrow> False"
  by (simp add: issued_def)

lemma manager_inv_sendMessage: "manager_inv s \<Longrightarrow> manager_inv (snd (sendMessage s))"
proof -
  assume inv: "manager_inv s"
  show ?thesis
  proof (cases "worker s")
    case False
    with inv show ?thesis by (simp add: sendMessage_def)
  next
    case True
    let ?mid = "MsgId (Suc (messageId s))"
    have fresh: "?mid \<notin> fst ` set (settled s)"
      using inv not_issued_next [of "messageId s"] by (auto simp: manager_inv_def)
    have "\<forall>mid \<in> insert ?mid (pendingMessages s) \<union> fst ` set (settled s).
        issued (Suc (messageId s)) mid"
    proof
      fix mid assume "mid \<in> insert ?mid (pendingMessages s) \<union> fst ` set (settled s)"
      then have "mid = ?mid \<or> mid \<in> pendingMessages s \<union> fst ` set (settled s)" by auto
      then show "issued (Suc (messageId s)) mid"
      proof
        assume "mid = ?mid"
        then show ?thesis by (simp add: issued_def)
      next
        assume "mid \<in> pendingMessages s \<union> fst ` set (settled s)"
        then have "issued (messageId s) mid" using inv by (simp add: manager_inv_def)
        then show ?thesis by (rule issued_mono)
      qed
    qed
    with inv fresh True show ?thesis
      by (simp add: manager_inv_def sendMessage_def Let_def)
  qed
qed

lemma manager_inv_settle:
  assumes "manager_inv s" "mid \<in> pendingMessages s"
  shows "manager_inv (s\<lparr> pendingMessages := pendingMessages s - {mid},
                         settled := settled s @ [(mid, out)] \<rparr>)"
  using assms by (auto simp: manager_inv_def)

lemma manager_inv_drop:
  assumes "manager_inv s"
  shows "manager_inv (s\<lparr> pendingMessages := pendingMessages s - {mid} \<rparr>)"
  using assms by (auto simp: manager_inv_def)

lemma manager_inv_timeout: "manager_inv s \<Longrightarrow> manager_inv (timeout_fires mid s)"
  using manager_inv_settle [of s mid "Reject ''Worker message timeout''"]
  by (simp add: timeout_fires_def)

lemma manager_inv_warn: "manager_inv s \<Longrightarrow> manager_inv (s\<lparr> warnings := w \<rparr>)"
  by (simp add: manager_inv_def)

lemma manager_inv_handleMessage: "manager_inv s \<Longrightarrow> manager_inv (handleMessage m s)"
proof -
  assume inv: "manager_inv s"
  show ?thesis
  proof (cases "msg_type m = ''INITIALIZED'' \<or> msg_id m \<notin> pendingMessages s")
    case True
    with inv show ?thesis by (auto simp: handleMessage_def manager_inv_warn)
  next
    case False
    then have p: "msg_id m \<in> pendingMessages s" by simp
    have a: "manager_inv (s\<lparr> pendingMessages := pendingMessages s - {msg_id m},
        settled := settled s @ [(msg_id m, out)] \<rparr>)" for out
      using inv p by (rule manager_inv_settle)
    have b: "manager_inv (s\<lparr> pendingMessages := pendingMessages s - {msg_id m} \<rparr>)"
      using inv by (rule manager_inv_drop)
    from False a b show ?thesis
      by (simp add: handleMessage_def Let_def split: option.split)
  qed
qed

lemma manager_inv_step: "manager_inv s \<Longrightarrow> manager_inv (manager_step e s)"
  by (cases e) (simp_all add: manager_inv_initialize manager_inv_sendMessage
      manager_inv_handleMessage manager_inv_timeout manager_inv_terminate)

lemma manager_inv_run: "manager_inv s \<Longrightarrow> manager_inv (manager_run es s)"
  by (induction es arbitrary: s) (simp_all add: manager_inv_step)

text \<open>
  Claim C6. After any sequence of initialize, sendMessage, inbound message, timeout and
  terminate turns, no request's promise has been settled more than once. An inbound
  message (other than INITIALIZED) whose id has no pending entry is logged and changes
  nothing else: no promise is resolved or rejected. When the timeout of a pending request
  fires, its entry is removed and its promise is rejected with the timeout error, and a
  response with that id arriving afterwards settles nothing and leaves the pending map as
  it is.
\<close>

theorem request_settles_at_most_once:
  "distinct (map fst (settled (manager_run es manager_init)))
   \<and> (msg_type m \<noteq> ''INITIALIZED'' \<and> msg_id m \<notin> pendingMessages (manager_run es manager_init)
      \<longrightarrow> handleMessage m (manager_run es manager_init)
          = (manager_run es manager_init)
              \<lparr> warnings := warnings (manager_run es manager_init) @ [msg_id m] \<rparr>)
   \<and> (msg_id m \<in> pendingMessages (manager_run es manager_init)
      \<longrightarrow> timeout_fires (msg_id m) (manager_run es manager_init)
          = (manager_run es manager_init)
              \<lparr> pendingMessages := pendingMessages (manager_run es manager_init) - {msg_id m},
                settled := settled (manager_run es manager_init)
                  @ [(msg_id m, Reject ''Worker message timeout'')] \<rparr>
        \<and> settled (handleMessage m (timeout_fires (msg_id m) (manager_run es manager_init)))
          = settled (timeout_fires (msg_id m) (manager_run es manager_init))
        \<and> pendingMessages
            (handleMessage m (timeout_fires (msg_id m) (manager_run es manager_init)))
          = pendingMessages (timeout_fires (msg_id m) (manager_run es manager_init)))"
proof -
  have "manager_inv (manager_run es manager_init)"
    using manager_inv_init by (rule manager_inv_run)
  then have "distinct (map fst (settled (manager_run es manager_init)))"
    by (simp add: manager_inv_def)
  then show ?thesis
    by (simp add: handleMessage_def timeout_fires_def)
qed

theorem request_settles_at_most_once_witness:
  "settled (manager_run
      [Initialize True, SendMessage, TimeoutFires (MsgId 1),
       OnMessage \<lparr> msg_type = ''SUCCESS'', msg_id = MsgId 1, msg_result = (5::nat),
                   msg_error = None \<rparr>] manager_init)
     = [(MsgId 1, Reject ''Worker message timeout'')]
   \<and> pendingMessages (manager_run [Initialize True, SendMessage] manager_init) = {MsgId 1}
   \<and> settled (timeout_fires (MsgId 1) (manager_run [Initialize True, SendMessage] manager_init))
     = [(MsgId 1, Reject ''Worker message timeout'')]
   \<and> handleMessage \<lparr> msg_type = ''SUCCESS'', msg_id = MsgId 7, msg_result = (5::nat),
                      msg_error = None \<rparr>
        (manager_run [Initialize True, SendMessage] manager_init)
     = (manager_run [Initialize True, SendMessage] manager_init)
         \<lparr> warnings := [MsgId 7] \<rparr>"
  using request_settles_at_most_once
    [of "[Initialize True, SendMessage]"
        "\<lparr> msg_type = ''SUCCESS'', msg_id = MsgId 1, msg_result = (5::nat), msg_error = None \<rparr>"]
    request_settles_at_most_once
    [of "[Initialize True, SendMessage]"
        "\<lparr> msg_type = ''SUCCESS'', msg_id = MsgId 7, msg_result = (5::nat), msg_error = None \<rparr>"]
  by (simp add: manager_init_def initialize_def sendMessage_def timeout_fires_def
      handleMessage_def Let_def)

end
